theory Spec2Isabelle
  imports Complex_Main "HOL-Library.Multiset"
begin

text \<open>
  The recommendation engine, the feed composer, the tracking of interactions and the
  batch insert queue of the movie catalogue service, as functions of higher-order logic,
  and the properties that its specification claims of them.
\<close>

section \<open>JavaScript numbers\<close>

text \<open>
  The scoring code computes with JavaScript numbers. They are modelled as exact reals
  together with the one special value the code can produce, \<open>NaN\<close>; rounding of
  IEEE doubles is not modelled. Every operation with a \<open>NaN\<close> operand yields
  \<open>NaN\<close>, as \<open>+\<close>, \<open>-\<close>, \<open>*\<close> and \<open>Math.min\<close> do.
\<close>

datatype jsnum = Num real | NaN

fun js_add :: "jsnum \<Rightarrow> jsnum \<Rightarrow> jsnum" where
  "js_add (Num a) (Num b) = Num (a + b)"
| "js_add _ _ = NaN"

fun js_sub :: "jsnum \<Rightarrow> jsnum \<Rightarrow> jsnum" where
  "js_sub (Num a) (Num b) = Num (a - b)"
| "js_sub _ _ = NaN"

fun js_mul :: "jsnum \<Rightarrow> jsnum \<Rightarrow> jsnum" where
  "js_mul (Num a) (Num b) = Num (a * b)"
| "js_mul _ _ = NaN"

fun js_min :: "jsnum \<Rightarrow> jsnum \<Rightarrow> jsnum" where
  "js_min (Num a) (Num b) = Num (min a b)"
| "js_min _ _ = NaN"

text \<open>\<open>x > 0\<close> on a JavaScript number: false for \<open>NaN\<close>.\<close>

fun js_positive :: "jsnum \<Rightarrow> bool" where
  "js_positive (Num a) = (0 < a)"
| "js_positive NaN = False"

text \<open>A number (not \<open>NaN\<close>) in the closed interval from 0 to 1.\<close>

fun in_unit :: "jsnum \<Rightarrow> bool" where
  "in_unit (Num a) = (0 \<le> a \<and> a \<le> 1)"
| "in_unit NaN = False"

section \<open>Strings\<close>


definition ascii_lower :: "char \<Rightarrow> char" where
  "ascii_lower c =
     (case map_of (zip ''ABCDEFGHIJKLMNOPQRSTUVWXYZ'' ''abcdefghijklmnopqrstuvwxyz'') c of
        None \<Rightarrow> c
      | Some d \<Rightarrow> d)"

definition ascii_toLowerCase :: "string \<Rightarrow> string" where
  "ascii_toLowerCase s = map ascii_lower s"


section \<open>Data model\<close>

text \<open>
  Identifiers are compared through \<open>toString()\<close> in the code, so they are strings here.
  Dates are milliseconds since the epoch. The current time, which the code reads with
  \<open>new Date()\<close>, is the parameter \<open>now\<close> of every function that uses it.
\<close>

record movie =
  movie_id :: string
  title :: string
  genre :: "string list"
  director :: string
  rating :: real
  releaseDate :: int

record viewedMovie =
  viewed_movieId :: string
  viewedAt :: int

text \<open>
  The user's \<open>interactionHistory\<close>. The code tests each list for being present
  (\<open>!userInteractions.preferredGenres\<close>, \<open>viewedMovies?.some\<close>), so each is optional.
\<close>

record userInteractions =
  preferredGenres :: "string list option"
  preferredDirectors :: "string list option"
  viewedMovies :: "viewedMovie list option"
  likedMovies :: "string list"

text \<open>
  A stored interaction; \<open>timestamp\<close> is \<open>metadata?.timestamp\<close>, absent when the
  record has no metadata or no timestamp.
\<close>

record interaction =
  userId :: string
  movieId :: string
  interactionType :: string
  timestamp :: "int option"

section \<open>Recommendation engine\<close>

text \<open>
  \<open>sevenDaysAgo = new Date(); sevenDaysAgo.setDate(sevenDaysAgo.getDate() - 7)\<close> is the
  instant at which the local calendar shows the date seven days before today's, at the
  same time of day. It is computed by the \<open>Date\<close> of the runtime in the time zone of the
  host, and is 168 hours before now unless the clocks of the host were changed in
  between. The functions that compute it take that calendar arithmetic as their
  parameter \<open>minus7days\<close>, from an instant to an instant.

  \<open>interaction.movieId.toString() === movie._id.toString() &&
  interaction.metadata?.timestamp >= sevenDaysAgo\<close>; the comparison with an absent
  timestamp is false.
\<close>

definition is_recent_for :: "(int \<Rightarrow> int) \<Rightarrow> int \<Rightarrow> movie \<Rightarrow> interaction \<Rightarrow> bool" where
  "is_recent_for minus7days now m i =
     (let sevenDaysAgo = minus7days now
      in movieId i = movie_id m \<and>
         (case timestamp i of None \<Rightarrow> False | Some t \<Rightarrow> sevenDaysAgo \<le> t))"

definition matchingGenres :: "(string \<Rightarrow> string) \<Rightarrow> string list \<Rightarrow> string list \<Rightarrow> nat" where
  "matchingGenres toLowerCase movieGenres prefs =
     length (filter (\<lambda>g. list_ex (\<lambda>pref. toLowerCase pref = toLowerCase g) prefs) movieGenres)"

text \<open>
  \<open>matchingGenres / movieGenres.length\<close> is the only quotient of the engine whose
  divisor is not a constant. The dividend never exceeds the divisor (lemma
  \<open>matchingGenres_le\<close>), so a zero divisor means \<open>0 / 0\<close>, which is \<open>NaN\<close>, and
  \<open>Math.min(NaN, 1.0)\<close> is \<open>NaN\<close>.
\<close>

definition calculateGenreWeight ::
  "(string \<Rightarrow> string) \<Rightarrow> string list \<Rightarrow> userInteractions \<Rightarrow> jsnum" where
  "calculateGenreWeight toLowerCase movieGenres u =
     (case preferredGenres u of
        None \<Rightarrow> Num 0.5
      | Some prefs \<Rightarrow>
          if length prefs = 0 then Num 0.5
          else js_min
                 (if length movieGenres = 0 then NaN
                  else Num (real (matchingGenres toLowerCase movieGenres prefs)
                            / real (length movieGenres)))
                 (Num 1.0))"

definition calculateDirectorWeight ::
  "(string \<Rightarrow> string) \<Rightarrow> string \<Rightarrow> userInteractions \<Rightarrow> real" where
  "calculateDirectorWeight toLowerCase movieDirector u =
     (case preferredDirectors u of
        None \<Rightarrow> 0.5
      | Some prefs \<Rightarrow>
          if length prefs = 0 then 0.5
          else let likedDirectors = map toLowerCase prefs
               in if toLowerCase movieDirector \<in> set likedDirectors then 1.0 else 0.3)"

definition calculatePopularity :: "(int \<Rightarrow> int) \<Rightarrow> int \<Rightarrow> movie \<Rightarrow> interaction list \<Rightarrow> real" where
  "calculatePopularity minus7days now m allInteractions =
     (let recentInteractions = length (filter (is_recent_for minus7days now m) allInteractions)
      in min (real recentInteractions / 100) 1.0)"

definition calculateRecency :: "int \<Rightarrow> int \<Rightarrow> real" where
  "calculateRecency now release =
     (let yearsDiff = real_of_int (now - release) / (1000 * 60 * 60 * 24 * 365)
      in if yearsDiff \<le> 5 then 1.0
         else if yearsDiff \<le> 10 then 0.7
         else if yearsDiff \<le> 20 then 0.5
         else 0.3)"

definition calculateInteractionWeight :: "string \<Rightarrow> userInteractions \<Rightarrow> real" where
  "calculateInteractionWeight mid u =
     (let viewed = (case viewedMovies u of
                      None \<Rightarrow> False
                    | Some vs \<Rightarrow> list_ex (\<lambda>v. viewed_movieId v = mid) vs)
      in if viewed then 0.1 else 0.8)"

definition calculateRecommendationScore ::
  "(string \<Rightarrow> string) \<Rightarrow> (int \<Rightarrow> int) \<Rightarrow> int \<Rightarrow> movie \<Rightarrow> userInteractions \<Rightarrow> interaction list
     \<Rightarrow> jsnum" where
  "calculateRecommendationScore toLowerCase minus7days now m u allInteractions =
     (let score0 = Num 0;
          genreWeight = calculateGenreWeight toLowerCase (genre m) u;
          score1 = js_add score0 (js_mul genreWeight (Num 0.4));
          directorWeight = calculateDirectorWeight toLowerCase (director m) u;
          score2 = js_add score1 (Num (directorWeight * 0.2));
          ratingWeight = (rating m / 10) * 0.15;
          score3 = js_add score2 (Num ratingWeight);
          popularityWeight = calculatePopularity minus7days now m allInteractions;
          score4 = js_add score3 (Num (popularityWeight * 0.1));
          recencyWeight = calculateRecency now (releaseDate m);
          score5 = js_add score4 (Num (recencyWeight * 0.1));
          interactionWeight = calculateInteractionWeight (movie_id m) u;
          score6 = js_add score5 (Num (interactionWeight * 0.05))
      in js_min score6 (Num 1.0))"

section \<open>Feed composer\<close>

text \<open>\<open>a >= b\<close> on JavaScript numbers: false as soon as one side is \<open>NaN\<close>.\<close>

fun js_ge :: "jsnum \<Rightarrow> jsnum \<Rightarrow> bool" where
  "js_ge (Num a) (Num b) = (b \<le> a)"
| "js_ge _ _ = False"

text \<open>
  \<open>Array.prototype.sort(comparefn)\<close>. The language specification makes the sort stable
  and reads a comparator result \<open>v\<close> as "first argument after the second" when
  \<open>v > 0\<close>, and as "keep the order" otherwise; a \<open>NaN\<close> result counts as \<open>+0\<close>. For a
  comparator that is a consistent ordering the result is determined by these rules, and
  the stable insertion sort below computes it. A comparator that returns \<open>NaN\<close> is
  no consistent ordering, and the language leaves the order to the implementation then;
  the one evaluation below with such a comparator is on three elements, each pair of
  neighbours compared undecided, which the sort of Node leaves in their order as this one
  does.
\<close>

fun insert_by :: "('a \<Rightarrow> 'a \<Rightarrow> jsnum) \<Rightarrow> 'a \<Rightarrow> 'a list \<Rightarrow> 'a list" where
  "insert_by cmp x [] = [x]"
| "insert_by cmp x (y # ys) =
     (if js_positive (cmp x y) then y # insert_by cmp x ys else x # y # ys)"

definition js_sort :: "('a \<Rightarrow> 'a \<Rightarrow> jsnum) \<Rightarrow> 'a list \<Rightarrow> 'a list" where
  "js_sort cmp xs = foldr (insert_by cmp) xs []"

text \<open>
  \<open>xs.slice(0, end)\<close>: a negative \<open>end\<close> counts from the end of the array.
\<close>

definition js_slice0 :: "'a list \<Rightarrow> int \<Rightarrow> 'a list" where
  "js_slice0 xs e =
     (let len = int (length xs);
          k = (if e < 0 then max (len + e) 0 else min e len)
      in take (nat k) xs)"

text \<open>The default parameter \<open>limit = 20\<close>: \<open>None\<close> is an omitted argument.\<close>

definition limit_or_default :: "int option \<Rightarrow> int" where
  "limit_or_default l = (case l of None \<Rightarrow> 20 | Some n \<Rightarrow> n)"

text \<open>The comparator \<open>(a, b) => b.score - a.score\<close> on pairs of a movie and its score.\<close>

definition by_score_desc :: "'a \<times> jsnum \<Rightarrow> 'a \<times> jsnum \<Rightarrow> jsnum" where
  "by_score_desc a b = js_sub (snd b) (snd a)"

definition getPersonalizedFeed ::
  "(string \<Rightarrow> string) \<Rightarrow> (int \<Rightarrow> int) \<Rightarrow> int \<Rightarrow> movie list \<Rightarrow> userInteractions
     \<Rightarrow> interaction list \<Rightarrow> int option \<Rightarrow> movie list" where
  "getPersonalizedFeed toLowerCase minus7days now movies u allInteractions limit =
     (let moviesWithScores =
            map (\<lambda>m. (m, calculateRecommendationScore toLowerCase minus7days now m u
                            allInteractions)) movies
      in map fst (js_slice0 (js_sort by_score_desc moviesWithScores) (limit_or_default limit)))"

definition trendingScore :: "(int \<Rightarrow> int) \<Rightarrow> int \<Rightarrow> movie \<Rightarrow> interaction list \<Rightarrow> real" where
  "trendingScore minus7days now m allInteractions =
     (let recentInteractions = length (filter (is_recent_for minus7days now m) allInteractions)
      in (rating m / 10) * 0.5 + min (real recentInteractions / 50) 1.0 * 0.5)"

definition getTrendingMovies ::
  "(int \<Rightarrow> int) \<Rightarrow> int \<Rightarrow> movie list \<Rightarrow> interaction list \<Rightarrow> int option \<Rightarrow> movie list" where
  "getTrendingMovies minus7days now movies allInteractions limit =
     (let moviesWithTrendingScore =
            map (\<lambda>m. (m, Num (trendingScore minus7days now m allInteractions))) movies
      in map fst (js_slice0 (js_sort by_score_desc moviesWithTrendingScore)
                    (limit_or_default limit)))"

section \<open>Interaction tracking\<close>

text \<open>
  Modelled from the spec: the error class \<open>ApiError\<close> of \<open>utils/errorHandler.js\<close> is not
  among the sources. The specification's taxonomy has validation errors and not-found
  errors, rejected synchronously; they are raised here with the status code and the
  message that the controller passes to the constructor. \<open>StoreError\<close> stands for what an
  operation on a collection can throw (a cast error for an id that is no object id, a
  validation error of the schema, a lost connection); \<open>asyncHandler\<close> passes every error
  on to the error middleware.
\<close>

datatype error = ApiError nat string | StoreError string

text \<open>
  The request of \<open>POST /api/movies/:id/interaction\<close>: \<open>req.body.interactionType\<close>
  (absent when the body has no such string), \<open>req.body.metadata\<close>, which is free-form
  and of which the controller reads nothing, \<open>req.params.id\<close> and \<open>req.user.id\<close>.
\<close>

record 'meta trackRequest =
  body_interactionType :: "string option"
  body_metadata :: 'meta
  params_id :: string
  user_id :: string

text \<open>
  The argument of \<open>UserInteraction.create\<close>; \<open>doc_metadata\<close> and \<open>doc_timestamp\<close>
  are \<open>{...metadata, timestamp: new Date()}\<close>.
\<close>

record 'meta interactionDoc =
  doc_userId :: string
  doc_movieId :: string
  doc_interactionType :: string
  doc_metadata :: 'meta
  doc_timestamp :: int

text \<open>The \<open>$addToSet\<close> update that a like makes to the user's \<open>interactionHistory\<close>.\<close>

record likeUpdate =
  add_likedMovies :: string
  add_each_preferredGenres :: "string list"
  add_preferredDirectors :: string

text \<open>
  The collections are reached through mongoose, which is not code of this repository:
  the three operations that \<open>trackInteraction\<close> calls are parameters, each a function
  from the state of the database to the new state and either the error thrown or the
  value returned (for \<open>Movie.findById\<close> the movie, or none for \<open>null\<close>).
\<close>

record ('db, 'meta, 'stored) collections =
  Movie_findById :: "string \<Rightarrow> 'db \<Rightarrow> 'db \<times> (error + movie option)"
  UserInteraction_create :: "'meta interactionDoc \<Rightarrow> 'db \<Rightarrow> 'db \<times> (error + 'stored)"
  User_findByIdAndUpdate :: "string \<Rightarrow> likeUpdate \<Rightarrow> 'db \<Rightarrow> 'db \<times> (error + unit)"

record 'stored response =
  statusCode :: nat
  success :: bool
  payload :: 'stored

text \<open>The \<open>enum\<close> of \<open>interactionType\<close> in the schema of \<open>UserInteraction\<close>.\<close>

definition schema_interactionTypes :: "string list" where
  "schema_interactionTypes = [''view'', ''like'', ''share'', ''search'', ''click'']"

text \<open>The list \<open>validTypes\<close> of \<open>trackInteraction\<close>.\<close>

definition validTypes :: "string list" where
  "validTypes = [''view'', ''like'', ''share'', ''click'']"

text \<open>\<open>xs.join(sep)\<close>\<close>

fun join_strings :: "string \<Rightarrow> string list \<Rightarrow> string" where
  "join_strings sep [] = []"
| "join_strings sep [x] = x"
| "join_strings sep (x # y # ys) = x @ sep @ join_strings sep (y # ys)"

definition trackInteraction ::
  "('db, 'meta, 'stored) collections \<Rightarrow> int \<Rightarrow> 'meta trackRequest \<Rightarrow> 'db
     \<Rightarrow> 'db \<times> (error + 'stored response)" where
  "trackInteraction db now req st =
     (let invalid = ApiError 400
            (''Invalid interaction type. Allowed: '' @ join_strings '', '' validTypes)
      in case body_interactionType req of
           None \<Rightarrow> (st, Inl invalid)
         | Some t \<Rightarrow>
             if t \<notin> set validTypes then (st, Inl invalid)
             else
               case Movie_findById db (params_id req) st of
                 (st1, Inl e) \<Rightarrow> (st1, Inl e)
               | (st1, Inr None) \<Rightarrow> (st1, Inl (ApiError 404 ''Movie not found''))
               | (st1, Inr (Some movie)) \<Rightarrow>
                   (case UserInteraction_create db
                           \<lparr>doc_userId = user_id req, doc_movieId = params_id req,
                            doc_interactionType = t, doc_metadata = body_metadata req,
                            doc_timestamp = now\<rparr> st1 of
                      (st2, Inl e) \<Rightarrow> (st2, Inl e)
                    | (st2, Inr interaction) \<Rightarrow>
                        if t = ''like''
                        then (case User_findByIdAndUpdate db (user_id req)
                                     \<lparr>add_likedMovies = params_id req,
                                      add_each_preferredGenres = genre movie,
                                      add_preferredDirectors = director movie\<rparr> st2 of
                                (st3, Inl e) \<Rightarrow> (st3, Inl e)
                              | (st3, Inr _) \<Rightarrow>
                                  (st3, Inr \<lparr>statusCode = 201, success = True,
                                             payload = interaction\<rparr>))
                        else (st2, Inr \<lparr>statusCode = 201, success = True,
                                        payload = interaction\<rparr>)))"

section \<open>Batch insert queue\<close>

text \<open>
  An item of the queue. \<open>insertFunction\<close> stands for the asynchronous operation handed to
  \<open>enqueue\<close>: applied to the payload and to the number of earlier attempts on this item it
  tells whether the promise of that call is fulfilled (\<open>True\<close>) or rejected (\<open>False\<close>),
  so an operation may fail at first and succeed later. The number of earlier attempts is
  the item's \<open>retries\<close> counter. \<open>enqueuedAt\<close> is the field \<open>timestamp\<close> of the code.
\<close>

record 'a queueItem =
  data :: 'a
  insertFunction :: "'a \<Rightarrow> nat \<Rightarrow> bool"
  retries :: nat
  enqueuedAt :: int

text \<open>
  The effects of the queue that can be observed from outside: a call of an item's insert
  operation, the pause of 100 ms between two batches, and the \<open>console.error\<close> line
  written when an item is given up.
\<close>

datatype 'a event = Called 'a | Delay | TerminalFailure 'a

text \<open>
  An invocation of \<open>processQueue\<close> that has passed its guard is suspended at one of its two
  \<open>await\<close>s: at \<open>Promise.allSettled\<close>, with the items of the batch whose promise has not
  settled yet, or at the pause between batches.
\<close>

datatype 'a pass = InFlight "'a queueItem list" | Sleeping

text \<open>
  The object together with what the runtime holds for it: the suspended invocations of
  \<open>processQueue\<close>, the number of pending \<open>setTimeout(() => this.processQueue(), ...)\<close>
  callbacks, and the trace of effects.
\<close>

record 'a movieQueue =
  queue :: "'a queueItem list"
  processing :: bool
  batchSize :: nat
  processingInterval :: nat
  maxRetries :: nat
  passes :: "'a pass list"
  timers :: nat
  events :: "'a event list"

definition new_queue :: "'a movieQueue" where
  "new_queue = \<lparr>queue = [], processing = False, batchSize = 10, processingInterval = 5000,
                 maxRetries = 3, passes = [], timers = 0, events = []\<rparr>"

text \<open>
  The \<open>finally\<close> block of \<open>processQueue\<close>. Every failure of an insert operation is
  caught inside the callback of its item, and no other statement of the loop throws, so
  the outer \<open>catch\<close> is never entered and the block runs when the loop has ended.
\<close>

definition finally_block :: "'a movieQueue \<Rightarrow> 'a movieQueue" where
  "finally_block s =
     (let s1 = s\<lparr>processing := False\<rparr>
      in if length (queue s1) > 0 then s1\<lparr>timers := timers s1 + 1\<rparr> else s1)"

text \<open>
  The synchronous part of one iteration of the loop: \<open>splice(0, batchSize)\<close> takes the
  batch off the queue, and \<open>batch.map\<close> calls the insert operation of every item of the
  batch, in order. The invocation then waits for the batch.
\<close>

definition dispatch :: "'a movieQueue \<Rightarrow> 'a movieQueue \<times> 'a pass" where
  "dispatch s =
     (let batch = take (batchSize s) (queue s)
      in (s\<lparr>queue := drop (batchSize s) (queue s),
             events := events s @ map (\<lambda>item. Called (data item)) batch\<rparr>,
          InFlight batch))"

text \<open>
  The test \<open>while (this.queue.length > 0)\<close> and what follows it: the next batch, or the
  end of the loop and the \<open>finally\<close> block. The second component is where the invocation
  is suspended, \<open>None\<close> when it has returned.
\<close>

definition loop_head :: "'a movieQueue \<Rightarrow> 'a movieQueue \<times> 'a pass option" where
  "loop_head s =
     (if length (queue s) > 0 then (let (s', p) = dispatch s in (s', Some p))
      else (finally_block s, None))"

text \<open>
  Where a running invocation stops: invocation \<open>i\<close>, resumed from an \<open>await\<close>, is
  suspended again or has returned; a new invocation is suspended for the first time or
  has returned.
\<close>

definition resume :: "nat \<Rightarrow> 'a movieQueue \<times> 'a pass option \<Rightarrow> 'a movieQueue" where
  "resume i r =
     (case r of
        (s, Some p) \<Rightarrow> s\<lparr>passes := (passes s)[i := p]\<rparr>
      | (s, None) \<Rightarrow> s\<lparr>passes := take i (passes s) @ drop (Suc i) (passes s)\<rparr>)"

definition suspend_new :: "'a movieQueue \<times> 'a pass option \<Rightarrow> 'a movieQueue" where
  "suspend_new r =
     (case r of
        (s, Some p) \<Rightarrow> s\<lparr>passes := passes s @ [p]\<rparr>
      | (s, None) \<Rightarrow> s)"

definition processQueue :: "'a movieQueue \<Rightarrow> 'a movieQueue" where
  "processQueue s =
     (if processing s \<or> length (queue s) = 0 then s
      else suspend_new (loop_head (s\<lparr>processing := True\<rparr>)))"

definition enqueue :: "'a \<Rightarrow> ('a \<Rightarrow> nat \<Rightarrow> bool) \<Rightarrow> int \<Rightarrow> 'a movieQueue \<Rightarrow> 'a movieQueue" where
  "enqueue movieData f now s =
     (let queueItem = \<lparr>data = movieData, insertFunction = f, retries = 0, enqueuedAt = now\<rparr>;
          s1 = s\<lparr>queue := queue s @ [queueItem]\<rparr>
      in if \<not> processing s1 then processQueue s1 else s1)"

text \<open>
  The promise of the \<open>j\<close>-th unsettled item of invocation \<open>i\<close> settles: the body of the
  \<open>async (item) => ...\<close> callback after its \<open>await\<close>.
\<close>

definition settle_item :: "'a queueItem \<Rightarrow> 'a movieQueue \<Rightarrow> 'a movieQueue" where
  "settle_item item s =
     (if insertFunction item (data item) (retries item) then s
      else if retries item < maxRetries s
           then s\<lparr>queue := queue s @ [item\<lparr>retries := retries item + 1\<rparr>]\<rparr>
           else s\<lparr>events := events s @ [TerminalFailure (data item)]\<rparr>)"

definition settle :: "nat \<Rightarrow> nat \<Rightarrow> 'a movieQueue \<Rightarrow> 'a movieQueue" where
  "settle i j s =
     (if i < length (passes s)
      then case passes s ! i of
             InFlight items \<Rightarrow>
               if j < length items
               then let s1 = settle_item (items ! j) s
                    in s1\<lparr>passes := (passes s1)[i := InFlight (take j items @ drop (Suc j) items)]\<rparr>
               else s
           | Sleeping \<Rightarrow> s
      else s)"

text \<open>
  \<open>Promise.allSettled\<close> has resolved for invocation \<open>i\<close>: pause when the queue is not empty,
  otherwise go back to the test of the loop.
\<close>

definition join :: "nat \<Rightarrow> 'a movieQueue \<Rightarrow> 'a movieQueue" where
  "join i s =
     (if length (queue s) > 0
      then s\<lparr>passes := (passes s)[i := Sleeping], events := events s @ [Delay]\<rparr>
      else resume i (loop_head s))"

text \<open>The pause of invocation \<open>i\<close> is over: back to the test of the loop.\<close>

definition wake :: "nat \<Rightarrow> 'a movieQueue \<Rightarrow> 'a movieQueue" where
  "wake i s = resume i (loop_head s)"

definition timer_fire :: "'a movieQueue \<Rightarrow> 'a movieQueue" where
  "timer_fire s = processQueue (s\<lparr>timers := timers s - 1\<rparr>)"

definition clear :: "'a movieQueue \<Rightarrow> 'a movieQueue" where
  "clear s = s\<lparr>queue := []\<rparr>"

definition getStatus :: "'a movieQueue \<Rightarrow> nat \<times> bool \<times> nat" where
  "getStatus s = (length (queue s), processing s, batchSize s)"

text \<open>
  The steps of the queue. Between two of them the runtime is free to run any other one:
  the continuations of the suspended invocations, whose promises settle in any order, and
  calls of the public methods from request handlers.
\<close>

inductive continues :: "'a movieQueue \<Rightarrow> 'a movieQueue \<Rightarrow> bool" where
  settles: "i < length (passes s) \<Longrightarrow> passes s ! i = InFlight items \<Longrightarrow> j < length items
            \<Longrightarrow> continues s (settle i j s)"
| joins: "i < length (passes s) \<Longrightarrow> passes s ! i = InFlight [] \<Longrightarrow> continues s (join i s)"
| wakes: "i < length (passes s) \<Longrightarrow> passes s ! i = Sleeping \<Longrightarrow> continues s (wake i s)"
| timer_fires: "0 < timers s \<Longrightarrow> continues s (timer_fire s)"

inductive step :: "'a movieQueue \<Rightarrow> 'a movieQueue \<Rightarrow> bool" where
  step_enqueue: "step s (enqueue d f now s)"
| step_processQueue: "step s (processQueue s)"
| step_clear: "step s (clear s)"
| step_continues: "continues s s' \<Longrightarrow> step s s'"

inductive reachable :: "'a movieQueue \<Rightarrow> bool" where
  reachable_new: "reachable new_queue"
| reachable_step: "reachable s \<Longrightarrow> step s s' \<Longrightarrow> reachable s'"

text \<open>
  A run without further calls from outside: the runtime resumes the oldest suspended
  invocation, settling the promises of its batch in the order of the batch, and fires a
  pending timer when no invocation is suspended.
\<close>

definition sched :: "'a movieQueue \<Rightarrow> 'a movieQueue" where
  "sched s =
     (case passes s of
        [] \<Rightarrow> if 0 < timers s then timer_fire s else s
      | InFlight [] # _ \<Rightarrow> join 0 s
      | InFlight (_ # _) # _ \<Rightarrow> settle 0 0 s
      | Sleeping # _ \<Rightarrow> wake 0 s)"

definition quiescent :: "'a movieQueue \<Rightarrow> bool" where
  "quiescent s = (passes s = [] \<and> timers s = 0)"

partial_function (option) run :: "'a movieQueue \<Rightarrow> 'a movieQueue option" where
  "run s = (if quiescent s then Some s else run (sched s))"

text \<open>
  \<open>createMoviesBatch\<close> enqueues the movies of the request one after the other, without
  giving up control in between.
\<close>

definition enqueue_all ::
  "('a \<times> ('a \<Rightarrow> nat \<Rightarrow> bool) \<times> int) list \<Rightarrow> 'a movieQueue \<Rightarrow> 'a movieQueue" where
  "enqueue_all items s = fold (\<lambda>(d, f, now). enqueue d f now) items s"

text \<open>The items that are in the queue or in a batch that has not settled.\<close>

definition pending :: "'a movieQueue \<Rightarrow> nat" where
  "pending s =
     length (queue s) +
     sum_list (map (\<lambda>p. case p of InFlight items \<Rightarrow> length items | Sleeping \<Rightarrow> 0) (passes s))"

text \<open>The successive batches of a list, each of at most \<open>n\<close> elements.\<close>

function chunks :: "nat \<Rightarrow> 'a list \<Rightarrow> 'a list list" where
  "chunks n xs = (if n = 0 \<or> xs = [] then [] else take n xs # chunks n (drop n xs))"
  by pat_completeness auto
termination
  by (relation "measure (\<lambda>(n, xs). length xs)") auto

declare chunks.simps [simp del]

section \<open>Notions of the specification\<close>

text \<open>
  The ranking contract in the words of the specification: the output holds the same
  movies as the input, in descending order of score, and movies with the same score
  appear in the order they have in the input.
\<close>

definition stable_descending :: "('a \<Rightarrow> jsnum) \<Rightarrow> 'a list \<Rightarrow> 'a list \<Rightarrow> bool" where
  "stable_descending sc inp out =
     (mset out = mset inp \<and>
      sorted_wrt (\<lambda>a b. js_ge (sc a) (sc b)) out \<and>
      list_all (\<lambda>m. filter (\<lambda>x. sc x = sc m) out = filter (\<lambda>x. sc x = sc m) inp) inp)"





text \<open>
  Notions used to state the properties of the queue: the item that \<open>enqueue\<close> makes of
  its arguments; a queue at rest; an insert operation that succeeds at every attempt, and
  one that fails at every attempt; the payloads of the insert calls of a trace; and the
  guard of re-entry, that at most one invocation is suspended and that the flag
  \<open>processing\<close> is set exactly while one is.
\<close>

definition new_item :: "'a \<times> ('a \<Rightarrow> nat \<Rightarrow> bool) \<times> int \<Rightarrow> 'a queueItem" where
  "new_item x = (case x of (d, f, now) \<Rightarrow>
     \<lparr>data = d, insertFunction = f, retries = 0, enqueuedAt = now\<rparr>)"

definition idle :: "'a movieQueue \<Rightarrow> bool" where
  "idle s = (queue s = [] \<and> \<not> processing s \<and> passes s = [] \<and> timers s = 0)"

definition always_ok :: "'a queueItem \<Rightarrow> bool" where
  "always_ok item = (\<forall>n. insertFunction item (data item) n)"

definition always_fails :: "'a queueItem \<Rightarrow> bool" where
  "always_fails item = (\<forall>n. \<not> insertFunction item (data item) n)"

definition calls :: "'a event list \<Rightarrow> 'a list" where
  "calls es = concat (map (\<lambda>e. case e of Called d \<Rightarrow> [d] | _ \<Rightarrow> []) es)"

definition single_pass :: "'a movieQueue \<Rightarrow> bool" where
  "single_pass s = (length (passes s) \<le> 1 \<and> (processing s \<longleftrightarrow> passes s \<noteq> []))"

text \<open>
  The number of calls that an item costs from now on, when its next call is attempt
  number \<open>r\<close>: one call if that attempt succeeds or no retry is left, one more than for
  attempt \<open>r + 1\<close> otherwise. \<open>gives_up\<close> tells whether the item ends as a terminal failure.
\<close>

function tries :: "nat \<Rightarrow> (nat \<Rightarrow> bool) \<Rightarrow> nat \<Rightarrow> nat" where
  "tries maxR ok r = (if ok r \<or> \<not> r < maxR then 1 else Suc (tries maxR ok (Suc r)))"
  by pat_completeness auto
termination
  by (relation "measure (\<lambda>(maxR, ok, r). maxR - r)") auto

declare tries.simps [simp del]

function gives_up :: "nat \<Rightarrow> (nat \<Rightarrow> bool) \<Rightarrow> nat \<Rightarrow> bool" where
  "gives_up maxR ok r =
     (if ok r then False else if r < maxR then gives_up maxR ok (Suc r) else True)"
  by pat_completeness auto
termination
  by (relation "measure (\<lambda>(maxR, ok, r). maxR - r)") auto

declare gives_up.simps [simp del]

definition attempts :: "nat \<Rightarrow> 'a queueItem \<Rightarrow> nat" where
  "attempts maxR x = tries maxR (insertFunction x (data x)) (retries x)"

definition doomed :: "nat \<Rightarrow> 'a queueItem \<Rightarrow> bool" where
  "doomed maxR x = gives_up maxR (insertFunction x (data x)) (retries x)"

text \<open>The items of the batches that have not settled, and the payloads given up in a trace.\<close>

definition in_flight :: "'a movieQueue \<Rightarrow> 'a queueItem list" where
  "in_flight s = concat (map (\<lambda>p. case p of InFlight b \<Rightarrow> b | Sleeping \<Rightarrow> []) (passes s))"

definition failures :: "'a event list \<Rightarrow> 'a list" where
  "failures es = concat (map (\<lambda>e. case e of TerminalFailure d \<Rightarrow> [d] | _ \<Rightarrow> []) es)"

text \<open>
  The calls made so far together with the calls that the items in the queue and in
  flight still cost; an item in flight has had its current call already. Likewise for the
  terminal failures.
\<close>

definition total_calls :: "'a movieQueue \<Rightarrow> 'a multiset" where
  "total_calls s =
     mset (calls (events s)) +
     sum_list (map (\<lambda>x. replicate_mset (attempts (maxRetries s) x) (data x)) (queue s)) +
     sum_list (map (\<lambda>x. replicate_mset (attempts (maxRetries s) x - 1) (data x)) (in_flight s))"

definition total_failures :: "'a movieQueue \<Rightarrow> 'a multiset" where
  "total_failures s =
     mset (failures (events s)) +
     mset (map data (filter (doomed (maxRetries s)) (queue s @ in_flight s)))"

text \<open>
  What holds of the object between any two steps: the guard of re-entry, no timer
  pending, and an invocation under way whenever the queue is not empty.
\<close>

definition consistent :: "'a movieQueue \<Rightarrow> bool" where
  "consistent s =
     (single_pass s \<and> timers s = 0 \<and> (processing s \<or> queue s = []))"

text \<open>
  The measure that decreases along a run: twice the calls that the queued items still
  cost, one less for an item in flight, and then the pending timers and the stages of the
  suspended invocations.
\<close>

definition weight :: "'a movieQueue \<Rightarrow> nat" where
  "weight s =
     sum_list (map (\<lambda>x. 2 * attempts (maxRetries s) x) (queue s)) +
     sum_list (map (\<lambda>x. 2 * attempts (maxRetries s) x - 1) (in_flight s))"

definition rank :: "'a movieQueue \<Rightarrow> nat" where
  "rank s =
     timers s + sum_list (map (\<lambda>p. case p of InFlight b \<Rightarrow> 2 | Sleeping \<Rightarrow> 1) (passes s))"

text \<open>The state after the next batch has gone from the queue into flight.\<close>

definition after_dispatch :: "'a movieQueue \<Rightarrow> 'a pass list \<Rightarrow> 'a movieQueue" where
  "after_dispatch s ps =
     s\<lparr>queue := drop (batchSize s) (queue s),
       events := events s @ map (\<lambda>x. Called (data x)) (take (batchSize s) (queue s)),
       passes := ps\<rparr>"

text \<open>The batch of the first invocation with its \<open>j\<close>-th item moved to the front.\<close>

definition moved_to_front :: "nat \<Rightarrow> 'a movieQueue \<Rightarrow> 'a movieQueue" where
  "moved_to_front j s =
     (case passes s of
        InFlight b # ps \<Rightarrow> s\<lparr>passes := InFlight (b ! j # take j b @ drop (Suc j) b) # ps\<rparr>
      | _ \<Rightarrow> s)"

section \<open>Example data\<close>

definition now0 :: int where
  "now0 = 1700000000000"

definition mk_movie :: "string \<Rightarrow> string list \<Rightarrow> real \<Rightarrow> movie" where
  "mk_movie i gs r =
     \<lparr>movie_id = i, title = i, genre = gs, director = ''Nolan'', rating = r,
      releaseDate = 1600000000000\<rparr>"

definition user_new :: userInteractions where
  "user_new = \<lparr>preferredGenres = Some [], preferredDirectors = Some [],
               viewedMovies = Some [], likedMovies = []\<rparr>"

definition user_action :: userInteractions where
  "user_action = \<lparr>preferredGenres = Some [''action''], preferredDirectors = Some [],
                  viewedMovies = Some [], likedMovies = []\<rparr>"

text \<open>A user whose preferred genre is spelled as the catalogue spells it.\<close>

definition user_Action :: userInteractions where
  "user_Action = \<lparr>preferredGenres = Some [''Action''], preferredDirectors = Some [],
                  viewedMovies = Some [], likedMovies = []\<rparr>"

definition view_at :: "string \<Rightarrow> int \<Rightarrow> interaction" where
  "view_at i t = \<lparr>userId = ''u1'', movieId = i, interactionType = ''view'',
                  timestamp = Some t\<rparr>"

definition recent_view :: "string \<Rightarrow> interaction" where
  "recent_view i = view_at i (now0 - 1000)"

definition ms_per_day :: int where
  "ms_per_day = 1000 * 60 * 60 * 24"

text \<open>
  The calendar arithmetic \<open>minus7days\<close> on a host whose clocks are never changed, such as
  one in UTC: seven days are 168 hours.
\<close>

definition utc_host :: "int \<Rightarrow> int" where
  "utc_host now = now - 7 * ms_per_day"



text \<open>
  Collections kept in memory, for the examples: the catalogue is fixed, an id that is
  not made of 24 hexadecimal digits is answered with a cast error, a created document is
  checked against the \<open>enum\<close> of the schema and appended, and an update of a user is
  appended to a list of updates.
\<close>

record memory =
  held_interactions :: "unit interactionDoc list"
  held_updates :: "(string \<times> likeUpdate) list"

definition is_objectId :: "string \<Rightarrow> bool" where
  "is_objectId s = (length s = 24 \<and> list_all (\<lambda>c. c \<in> set ''0123456789abcdef'') s)"

definition memory_db ::
  "(string \<times> movie) list \<Rightarrow> (memory, unit, unit interactionDoc) collections" where
  "memory_db catalogue =
     \<lparr>Movie_findById = (\<lambda>i st.
          if is_objectId i then (st, Inr (map_of catalogue i))
          else (st, Inl (StoreError ''CastError''))),
      UserInteraction_create = (\<lambda>d st.
          if doc_interactionType d \<in> set schema_interactionTypes
          then (st\<lparr>held_interactions := held_interactions st @ [d]\<rparr>, Inr d)
          else (st, Inl (StoreError ''ValidationError''))),
      User_findByIdAndUpdate = (\<lambda>u upd st.
          (st\<lparr>held_updates := held_updates st @ [(u, upd)]\<rparr>, Inr ()))\<rparr>"

definition memory0 :: memory where
  "memory0 = \<lparr>held_interactions = [], held_updates = []\<rparr>"

definition movie1_id :: string where
  "movie1_id = ''64b7f0c2a1d3e4f5a6b7c8d9''"

definition absent_id :: string where
  "absent_id = ''64b7f0c2a1d3e4f5a6b7c8da''"

definition user1_id :: string where
  "user1_id = ''64b7f0c2a1d3e4f5a6b7c8e0''"

definition catalogue0 :: "(string \<times> movie) list" where
  "catalogue0 = [(movie1_id, mk_movie movie1_id [''Action''] 8)]"

definition track_request :: "string \<Rightarrow> string \<Rightarrow> unit trackRequest" where
  "track_request t mid =
     \<lparr>body_interactionType = Some t, body_metadata = (), params_id = mid, user_id = user1_id\<rparr>"

section \<open>Properties of the scoring engine\<close>








lemma matchingGenres_le: "matchingGenres toLowerCase gs prefs \<le> length gs"
  by (simp add: matchingGenres_def)

lemma genreWeight_unit:
  assumes "gs \<noteq> [] \<or> preferredGenres u = None \<or> preferredGenres u = Some []"
  shows "in_unit (calculateGenreWeight toLowerCase gs u)"
proof (cases "preferredGenres u")
  case None
  then show ?thesis by (simp add: calculateGenreWeight_def)
next
  case (Some prefs)
  show ?thesis
  proof (cases "prefs = []")
    case True
    with Some show ?thesis by (simp add: calculateGenreWeight_def)
  next
    case False
    with Some assms have ne: "gs \<noteq> []" by auto
    have "real (matchingGenres toLowerCase gs prefs) \<le> real (length gs)"
      using matchingGenres_le by simp
    then have "real (matchingGenres toLowerCase gs prefs) / real (length gs) \<le> 1"
      using ne by (simp add: divide_le_eq_1)
    with Some False ne show ?thesis
      by (simp add: calculateGenreWeight_def)
  qed
qed

lemma directorWeight_bounds:
  "0.3 \<le> calculateDirectorWeight toLowerCase d u \<and> calculateDirectorWeight toLowerCase d u \<le> 1"
  by (simp add: calculateDirectorWeight_def Let_def split: option.split)

lemma popularity_bounds:
  "0 \<le> calculatePopularity minus7days now m ai \<and> calculatePopularity minus7days now m ai \<le> 1"
  by (simp add: calculatePopularity_def Let_def)

lemma recency_bounds:
  "0.3 \<le> calculateRecency now r \<and> calculateRecency now r \<le> 1"
  by (simp add: calculateRecency_def Let_def)

lemma interactionWeight_bounds:
  "0.1 \<le> calculateInteractionWeight i u \<and> calculateInteractionWeight i u \<le> 0.8"
  by (simp add: calculateInteractionWeight_def Let_def)

lemma score_of_genreWeight:
  assumes gw: "calculateGenreWeight toLowerCase (genre m) u = Num g"
  shows "calculateRecommendationScore toLowerCase minus7days now m u ai =
           Num (min (g * 0.4 + calculateDirectorWeight toLowerCase (director m) u * 0.2
                      + (rating m / 10) * 0.15 + calculatePopularity minus7days now m ai * 0.1
                      + calculateRecency now (releaseDate m) * 0.1
                      + calculateInteractionWeight (movie_id m) u * 0.05) 1)"
  by (simp add: calculateRecommendationScore_def Let_def gw)

lemma score_NaN:
  assumes gw: "calculateGenreWeight toLowerCase (genre m) u = NaN"
  shows "calculateRecommendationScore toLowerCase minus7days now m u ai = NaN"
  by (simp add: calculateRecommendationScore_def Let_def gw)

lemma score_range:
  assumes gu: "in_unit (calculateGenreWeight toLowerCase (genre m) u)"
    and r: "0 \<le> rating m" "rating m \<le> 10"
  shows "in_unit (calculateRecommendationScore toLowerCase minus7days now m u ai)"
proof -
  from gu obtain g where gw: "calculateGenreWeight toLowerCase (genre m) u = Num g" "0 \<le> g" "g \<le> 1"
    by (cases "calculateGenreWeight toLowerCase (genre m) u") auto
  let ?d = "calculateDirectorWeight toLowerCase (director m) u"
  let ?p = "calculatePopularity minus7days now m ai"
  let ?c = "calculateRecency now (releaseDate m)"
  let ?i = "calculateInteractionWeight (movie_id m) u"
  have "0 \<le> g * 0.4 + ?d * 0.2 + (rating m / 10) * 0.15 + ?p * 0.1 + ?c * 0.1 + ?i * 0.05"
    using gw r directorWeight_bounds [of toLowerCase "director m" u]
      popularity_bounds [of minus7days now m ai]
      recency_bounds [of now "releaseDate m"] interactionWeight_bounds [of "movie_id m" u]
    by simp
  then show ?thesis
    by (simp add: score_of_genreWeight [OF gw(1)])
qed

lemmas example_defs = now0_def mk_movie_def user_new_def user_action_def user_Action_def
  recent_view_def view_at_def

lemmas engine_defs = calculateRecommendationScore_def calculateGenreWeight_def
  calculateDirectorWeight_def calculatePopularity_def calculateRecency_def
  calculateInteractionWeight_def matchingGenres_def is_recent_for_def Let_def


text \<open>
  C9. For every movie, a user whose preference history is empty (no preferred genres
  and no preferred directors, the lists absent or empty) gets the neutral value 0.5 for
  both the genre sub-score and the director sub-score.
\<close>

theorem empty_history_neutral_subscores:
  assumes "preferredGenres u = None \<or> preferredGenres u = Some []"
    and "preferredDirectors u = None \<or> preferredDirectors u = Some []"
  shows "calculateGenreWeight toLowerCase (genre m) u = Num 0.5 \<and>
         calculateDirectorWeight toLowerCase (director m) u = 0.5"
  using assms
  by (auto simp: calculateGenreWeight_def calculateDirectorWeight_def)

theorem empty_history_neutral_subscores_witness:
  "(preferredGenres user_new = None \<or> preferredGenres user_new = Some []) \<and>
   (preferredDirectors user_new = None \<or> preferredDirectors user_new = Some []) \<and>
   calculateGenreWeight ascii_toLowerCase (genre (mk_movie ''m1'' [''Action''] 8)) user_new = Num 0.5 \<and>
   calculateDirectorWeight ascii_toLowerCase (director (mk_movie ''m1'' [''Action''] 8)) user_new = 0.5"
  using empty_history_neutral_subscores
          [where u = user_new and m = "mk_movie ''m1'' [''Action''] 8"
             and toLowerCase = ascii_toLowerCase]
  by (simp add: user_new_def)






text \<open>
  C1. The score of a movie is claimed to lie between 0 and 1 whenever the rating lies
  between 0 and 10. Evaluated on a movie with rating 8 and an empty genre list, for a
  user with one preferred genre, the score is \<open>NaN\<close>, which is no number of that
  interval; this is so on every host.
\<close>

theorem score_is_NaN_for_movie_without_genres:
  "0 \<le> rating (mk_movie ''b'' [] 8) \<and> rating (mk_movie ''b'' [] 8) \<le> 10 \<and>
   calculateRecommendationScore toLowerCase minus7days now0 (mk_movie ''b'' [] 8) user_action [] = NaN \<and>
   \<not> in_unit (calculateRecommendationScore toLowerCase minus7days now0 (mk_movie ''b'' [] 8)
                user_action [])"
  by (simp add: example_defs engine_defs)

text \<open>
  C10. For a user with at least one preferred genre, a movie with an empty genre list
  makes the genre sub-score the quotient of zero matching genres by zero genres, so the
  sub-score and the total score are \<open>NaN\<close>; and for ratings between 0 and 10 the total
  score lies between 0 and 1 exactly when the movie has at least one genre.
\<close>

theorem empty_genre_list_divides_zero_by_zero:
  assumes "preferredGenres u = Some prefs" and "prefs \<noteq> []"
  shows "(genre m = [] \<longrightarrow>
            matchingGenres toLowerCase (genre m) prefs = 0 \<and> length (genre m) = 0 \<and>
            calculateGenreWeight toLowerCase (genre m) u = NaN \<and>
            calculateRecommendationScore toLowerCase minus7days now m u allInteractions = NaN) \<and>
         (0 \<le> rating m \<and> rating m \<le> 10 \<longrightarrow>
            (in_unit (calculateRecommendationScore toLowerCase minus7days now m u allInteractions)
               \<longleftrightarrow> genre m \<noteq> []))"
proof -
  have nan: "calculateGenreWeight toLowerCase (genre m) u = NaN" if "genre m = []"
    using that assms by (simp add: calculateGenreWeight_def)
  have "in_unit (calculateRecommendationScore toLowerCase minus7days now m u allInteractions)"
    if "genre m \<noteq> []" "0 \<le> rating m" "rating m \<le> 10"
    using that genreWeight_unit [of "genre m" u toLowerCase] by (simp add: score_range)
  moreover have "\<not> in_unit (calculateRecommendationScore toLowerCase minus7days now m u allInteractions)"
    if "genre m = []"
    using nan [OF that] by (simp add: score_NaN)
  ultimately show ?thesis
    using nan by (auto simp: score_NaN matchingGenres_def)
qed

theorem empty_genre_list_divides_zero_by_zero_witness:
  "preferredGenres user_action = Some [''action''] \<and> [''action''] \<noteq> [] \<and>
   genre (mk_movie ''b'' [] 8) = [] \<and>
   calculateGenreWeight ascii_toLowerCase (genre (mk_movie ''b'' [] 8)) user_action = NaN \<and>
   calculateRecommendationScore ascii_toLowerCase utc_host now0 (mk_movie ''b'' [] 8) user_action [] = NaN \<and>
   0 \<le> rating (mk_movie ''c'' [''Action''] 8) \<and> rating (mk_movie ''c'' [''Action''] 8) \<le> 10 \<and>
   genre (mk_movie ''c'' [''Action''] 8) \<noteq> [] \<and>
   in_unit (calculateRecommendationScore ascii_toLowerCase utc_host now0
              (mk_movie ''c'' [''Action''] 8) user_action [])"
  using empty_genre_list_divides_zero_by_zero
          [where u = user_action and prefs = "[''action'']" and m = "mk_movie ''b'' [] 8"
             and toLowerCase = ascii_toLowerCase and minus7days = utc_host and now = now0
             and allInteractions = "[]"]
    empty_genre_list_divides_zero_by_zero
          [where u = user_action and prefs = "[''action'']" and m = "mk_movie ''c'' [''Action''] 8"
             and toLowerCase = ascii_toLowerCase and minus7days = utc_host and now = now0
             and allInteractions = "[]"]
  by (simp add: user_action_def mk_movie_def)

section \<open>Properties of the feed composer\<close>

lemma mset_insert_by: "mset (insert_by cmp x ys) = add_mset x (mset ys)"
  by (induction ys) auto

lemma mset_js_sort: "mset (js_sort cmp xs) = mset xs"
  by (induction xs) (auto simp: js_sort_def mset_insert_by)

lemma set_insert_by: "set (insert_by cmp x ys) = insert x (set ys)"
  by (induction ys) auto

lemma set_js_sort: "set (js_sort cmp xs) = set xs"
  by (induction xs) (auto simp: js_sort_def set_insert_by)

lemma js_sort_Nil: "js_sort cmp [] = []"
  by (simp add: js_sort_def)

lemma js_sort_Cons: "js_sort cmp (x # xs) = insert_by cmp x (js_sort cmp xs)"
  by (simp add: js_sort_def)

lemma by_score_desc_positive:
  "snd a \<noteq> NaN \<Longrightarrow> snd b \<noteq> NaN \<Longrightarrow>
   js_positive (by_score_desc a b) = (\<not> js_ge (snd a) (snd b))"
  by (cases "snd a"; cases "snd b") (auto simp: by_score_desc_def)

lemma js_ge_trans: "js_ge a b \<Longrightarrow> js_ge b c \<Longrightarrow> js_ge a c"
  by (cases a; cases b; cases c) auto

lemma js_ge_total: "a \<noteq> NaN \<Longrightarrow> b \<noteq> NaN \<Longrightarrow> \<not> js_ge a b \<Longrightarrow> js_ge b a"
  by (cases a; cases b) auto

lemma sorted_insert_by:
  assumes "sorted_wrt (\<lambda>a b. js_ge (snd a) (snd b)) ys" "snd x \<noteq> NaN" "\<forall>y\<in>set ys. snd y \<noteq> NaN"
  shows "sorted_wrt (\<lambda>a b. js_ge (snd a) (snd b)) (insert_by by_score_desc x ys)"
  using assms
proof (induction ys)
  case Nil
  then show ?case by simp
next
  case (Cons y ys)
  show ?case
  proof (cases "js_ge (snd x) (snd y)")
    case True
    then have "\<forall>z\<in>set ys. js_ge (snd x) (snd z)"
      using Cons.prems(1) js_ge_trans by auto
    with True Cons.prems show ?thesis
      by (simp add: by_score_desc_positive)
  next
    case False
    then have "js_ge (snd y) (snd x)"
      using Cons.prems js_ge_total by simp
    with False Cons show ?thesis
      by (auto simp: by_score_desc_positive set_insert_by)
  qed
qed

lemma sorted_js_sort:
  assumes "\<forall>p\<in>set ps. snd p \<noteq> NaN"
  shows "sorted_wrt (\<lambda>a b. js_ge (snd a) (snd b)) (js_sort by_score_desc ps)"
  using assms
  by (induction ps) (auto simp: js_sort_Nil js_sort_Cons set_js_sort intro!: sorted_insert_by)

lemma filter_insert_by_other:
  "\<not> P x \<Longrightarrow> filter P (insert_by cmp x ys) = filter P ys"
  by (induction ys) auto

lemma filter_insert_by_same:
  assumes "snd x = k" "snd x \<noteq> NaN" "\<forall>y\<in>set ys. snd y \<noteq> NaN"
  shows "filter (\<lambda>p. snd p = k) (insert_by by_score_desc x ys) = x # filter (\<lambda>p. snd p = k) ys"
  using assms
proof (induction ys)
  case Nil
  then show ?case by simp
next
  case (Cons y ys)
  show ?case
  proof (cases "js_ge (snd x) (snd y)")
    case True
    with Cons.prems show ?thesis by (simp add: by_score_desc_positive)
  next
    case False
    have "js_ge (snd x) (snd x)" using Cons.prems(2) by (cases "snd x") auto
    with False have "snd y \<noteq> k" using Cons.prems(1) by auto
    with False Cons show ?thesis by (simp add: by_score_desc_positive)
  qed
qed

lemma stable_js_sort:
  assumes "\<forall>p\<in>set ps. snd p \<noteq> NaN"
  shows "filter (\<lambda>p. snd p = k) (js_sort by_score_desc ps) = filter (\<lambda>p. snd p = k) ps"
  using assms
proof (induction ps)
  case Nil
  then show ?case by (simp add: js_sort_Nil)
next
  case (Cons p ps)
  then show ?case
    by (cases "snd p = k")
       (simp_all add: js_sort_Cons filter_insert_by_same filter_insert_by_other set_js_sort)
qed

lemma ranked_stable_descending:
  assumes num: "\<forall>m\<in>set movies. sc m \<noteq> NaN"
  shows "stable_descending sc movies (map fst (js_sort by_score_desc (map (\<lambda>m. (m, sc m)) movies)))"
proof -
  let ?ps = "map (\<lambda>m. (m, sc m)) movies"
  let ?S = "js_sort by_score_desc ?ps"
  have pnum: "\<forall>p\<in>set ?ps. snd p \<noteq> NaN" using num by auto
  have pair: "\<And>p. p \<in> set ?S \<Longrightarrow> snd p = sc (fst p)"
    by (auto simp: set_js_sort)
  have "mset (map fst ?S) = image_mset fst (mset ?S)"
    by simp
  also have "\<dots> = image_mset fst (mset ?ps)"
    by (simp only: mset_js_sort)
  also have "\<dots> = mset movies"
    by (simp add: multiset.map_comp comp_def)
  finally have m: "mset (map fst ?S) = mset movies" .
  have "sorted_wrt (\<lambda>a b. js_ge (snd a) (snd b)) ?S"
    using pnum by (rule sorted_js_sort)
  then have "sorted_wrt (\<lambda>a b. js_ge (sc (fst a)) (sc (fst b))) ?S"
    by (rule sorted_wrt_mono_rel [rotated]) (simp add: pair)
  then have s: "sorted_wrt (\<lambda>a b. js_ge (sc a) (sc b)) (map fst ?S)"
    by (simp add: sorted_wrt_map)
  have f: "filter (\<lambda>x. sc x = k) (map fst ?S) = filter (\<lambda>x. sc x = k) movies" for k
  proof -
    have "filter (\<lambda>x. sc x = k) (map fst ?S) = map fst (filter (\<lambda>p. sc (fst p) = k) ?S)"
      by (simp add: filter_map comp_def)
    also have "filter (\<lambda>p. sc (fst p) = k) ?S = filter (\<lambda>p. snd p = k) ?S"
      by (rule filter_cong) (simp_all add: pair)
    also have "\<dots> = filter (\<lambda>p. snd p = k) ?ps"
      using pnum by (rule stable_js_sort)
    also have "map fst \<dots> = filter (\<lambda>x. sc x = k) movies"
      by (simp add: filter_map comp_def)
    finally show ?thesis .
  qed
  show ?thesis
    unfolding stable_descending_def using m s f by (simp add: list_all_iff)
qed

lemma js_slice0_nonneg: "0 \<le> e \<Longrightarrow> js_slice0 xs e = take (nat e) xs"
  by (simp add: js_slice0_def Let_def min_def)

lemma js_slice0_negative: "e < 0 \<Longrightarrow> js_slice0 xs e = take (length xs - nat (- e)) xs"
  by (auto simp: js_slice0_def Let_def max_def nat_diff_distrib' nat_add_distrib intro: arg_cong [where f = "\<lambda>n. take n xs"])

lemma feed_as_take:
  assumes "0 \<le> limit_or_default limit"
  shows "map fst (js_slice0 (js_sort by_score_desc (map (\<lambda>m. (m, sc m)) movies)) (limit_or_default limit))
         = take (nat (limit_or_default limit)) (map fst (js_sort by_score_desc (map (\<lambda>m. (m, sc m)) movies)))"
  using assms by (simp add: js_slice0_nonneg take_map)

text \<open>
  What the sort and the slice do for any scores that are numbers and any limit that is not
  negative: the result is the first \<open>limit\<close> movies of the arrangement of the candidates
  that is in descending order of score and keeps the input order of movies with equal
  scores.
\<close>

lemma ranking_sorted_stable_truncated:
  assumes "\<forall>m\<in>set movies. sc m \<noteq> NaN" and "0 \<le> limit_or_default limit"
  shows "\<exists>S. stable_descending sc movies S \<and>
             map fst (js_slice0 (js_sort by_score_desc (map (\<lambda>m. (m, sc m)) movies))
                        (limit_or_default limit))
               = take (nat (limit_or_default limit)) S"
  using ranked_stable_descending [OF assms(1)] feed_as_take [OF assms(2), of sc movies]
  by blast

text \<open>
  C2. The feeds are claimed to be in descending order of score. Evaluated on three
  candidates of which the second has no genre, for a user with one preferred genre, the
  personalized feed is the input as it was: the score of the second movie is \<open>NaN\<close>,
  every comparison with it is undecided, and the first movie stays before the third,
  whose score is greater. This is so on every host and at every time.
\<close>

theorem personalized_feed_not_descending:
  "getPersonalizedFeed toLowerCase minus7days now
       [mk_movie ''a'' [''Action''] 2, mk_movie ''b'' [] 8, mk_movie ''c'' [''Action''] 9]
       user_Action [] None
     = [mk_movie ''a'' [''Action''] 2, mk_movie ''b'' [] 8, mk_movie ''c'' [''Action''] 9] \<and>
   calculateRecommendationScore toLowerCase minus7days now (mk_movie ''b'' [] 8) user_Action [] = NaN \<and>
   js_ge (calculateRecommendationScore toLowerCase minus7days now (mk_movie ''c'' [''Action''] 9)
            user_Action [])
         (calculateRecommendationScore toLowerCase minus7days now (mk_movie ''a'' [''Action''] 2)
            user_Action []) \<and>
   \<not> js_ge (calculateRecommendationScore toLowerCase minus7days now (mk_movie ''a'' [''Action''] 2)
              user_Action [])
           (calculateRecommendationScore toLowerCase minus7days now (mk_movie ''c'' [''Action''] 9)
              user_Action [])"
  by (simp add: getPersonalizedFeed_def js_sort_def by_score_desc_def js_slice0_def
        limit_or_default_def example_defs engine_defs)

section \<open>Properties of interaction tracking\<close>

lemma invalid_message:
  "''Invalid interaction type. Allowed: '' @ join_strings '', '' validTypes
     = ''Invalid interaction type. Allowed: view, like, share, click''"
  by (simp add: validTypes_def)

lemma validTypes_in_schema: "t \<in> set validTypes \<Longrightarrow> t \<in> set schema_interactionTypes"
  by (auto simp: validTypes_def schema_interactionTypes_def)

lemmas tracking_example_defs = track_request_def memory_db_def memory0_def catalogue0_def
  movie1_id_def absent_id_def user1_id_def is_objectId_def schema_interactionTypes_def
  validTypes_def mk_movie_def now0_def

text \<open>
  C4, as amended. \<open>trackInteraction\<close> accepts exactly the interaction types view, like,
  share and click. A request with such a type passes the validation and goes on to the
  look-up of the movie; when the look-up returns the movie it goes on to create the
  interaction record with that type, and answers with status 201 and the record when the
  creation (and for a like the update of the user) succeeds; when the look-up returns no
  movie the request is answered with 404 and nothing is created; an error of an
  operation on the collections is passed on. Every other request, the type search of the
  schema among them, is rejected with the validation error 400 whatever the collections
  are, with the state of the database as it was: no operation on them is called.
\<close>

theorem trackInteraction_accepts_four_types:
  "(body_interactionType req = None \<or>
    (body_interactionType req = Some t \<and> t \<notin> {''view'', ''like'', ''share'', ''click''}) \<longrightarrow>
      trackInteraction db now req st =
        (st, Inl (ApiError 400 ''Invalid interaction type. Allowed: view, like, share, click''))) \<and>
   (body_interactionType req = Some t \<and> t \<in> {''view'', ''like'', ''share'', ''click''} \<longrightarrow>
      (\<forall>st1 e. Movie_findById db (params_id req) st = (st1, Inl e) \<longrightarrow>
         trackInteraction db now req st = (st1, Inl e)) \<and>
      (\<forall>st1. Movie_findById db (params_id req) st = (st1, Inr None) \<longrightarrow>
         trackInteraction db now req st = (st1, Inl (ApiError 404 ''Movie not found''))) \<and>
      (\<forall>st1 movie st2. Movie_findById db (params_id req) st = (st1, Inr (Some movie)) \<longrightarrow>
         (\<forall>e. UserInteraction_create db
                 \<lparr>doc_userId = user_id req, doc_movieId = params_id req,
                  doc_interactionType = t, doc_metadata = body_metadata req,
                  doc_timestamp = now\<rparr> st1 = (st2, Inl e) \<longrightarrow>
              trackInteraction db now req st = (st2, Inl e)) \<and>
         (\<forall>stored. UserInteraction_create db
                 \<lparr>doc_userId = user_id req, doc_movieId = params_id req,
                  doc_interactionType = t, doc_metadata = body_metadata req,
                  doc_timestamp = now\<rparr> st1 = (st2, Inr stored) \<longrightarrow>
              (t \<noteq> ''like'' \<longrightarrow>
                 trackInteraction db now req st =
                   (st2, Inr \<lparr>statusCode = 201, success = True, payload = stored\<rparr>)) \<and>
              (t = ''like'' \<longrightarrow>
                 (\<forall>st3 e. User_findByIdAndUpdate db (user_id req)
                             \<lparr>add_likedMovies = params_id req,
                              add_each_preferredGenres = genre movie,
                              add_preferredDirectors = director movie\<rparr> st2 = (st3, Inl e) \<longrightarrow>
                    trackInteraction db now req st = (st3, Inl e)) \<and>
                 (\<forall>st3 r. User_findByIdAndUpdate db (user_id req)
                             \<lparr>add_likedMovies = params_id req,
                              add_each_preferredGenres = genre movie,
                              add_preferredDirectors = director movie\<rparr> st2 = (st3, Inr r) \<longrightarrow>
                    trackInteraction db now req st =
                      (st3, Inr \<lparr>statusCode = 201, success = True, payload = stored\<rparr>)))))) \<and>
   ''search'' \<in> set schema_interactionTypes \<and> ''search'' \<notin> set validTypes"
proof -
  have v: "set validTypes = {''view'', ''like'', ''share'', ''click''}"
    by (auto simp: validTypes_def)
  have a: "trackInteraction db now req st =
        (st, Inl (ApiError 400 ''Invalid interaction type. Allowed: view, like, share, click''))"
    if "body_interactionType req = None \<or> (body_interactionType req = Some t \<and> t \<notin> set validTypes)"
    using that unfolding trackInteraction_def Let_def invalid_message by auto
  have b: "trackInteraction db now req st =
      (case Movie_findById db (params_id req) st of
         (st1, Inl e) \<Rightarrow> (st1, Inl e)
       | (st1, Inr None) \<Rightarrow> (st1, Inl (ApiError 404 ''Movie not found''))
       | (st1, Inr (Some movie)) \<Rightarrow>
           (case UserInteraction_create db
                   \<lparr>doc_userId = user_id req, doc_movieId = params_id req,
                    doc_interactionType = t, doc_metadata = body_metadata req,
                    doc_timestamp = now\<rparr> st1 of
              (st2, Inl e) \<Rightarrow> (st2, Inl e)
            | (st2, Inr interaction) \<Rightarrow>
                if t = ''like''
                then (case User_findByIdAndUpdate db (user_id req)
                             \<lparr>add_likedMovies = params_id req,
                              add_each_preferredGenres = genre movie,
                              add_preferredDirectors = director movie\<rparr> st2 of
                        (st3, Inl e) \<Rightarrow> (st3, Inl e)
                      | (st3, Inr _) \<Rightarrow>
                          (st3, Inr \<lparr>statusCode = 201, success = True, payload = interaction\<rparr>))
                else (st2, Inr \<lparr>statusCode = 201, success = True, payload = interaction\<rparr>)))"
      (is "_ = ?rhs")
    if "body_interactionType req = Some t" "t \<in> set validTypes"
    using that by (simp add: trackInteraction_def Let_def)
  have c: "''search'' \<in> set schema_interactionTypes \<and> ''search'' \<notin> set validTypes"
    by (simp add: schema_interactionTypes_def validTypes_def)
  have d: "body_interactionType req = Some t \<and> t \<in> set validTypes \<longrightarrow>
      (\<forall>st1 e. Movie_findById db (params_id req) st = (st1, Inl e) \<longrightarrow>
         trackInteraction db now req st = (st1, Inl e)) \<and>
      (\<forall>st1. Movie_findById db (params_id req) st = (st1, Inr None) \<longrightarrow>
         trackInteraction db now req st = (st1, Inl (ApiError 404 ''Movie not found''))) \<and>
      (\<forall>st1 movie st2. Movie_findById db (params_id req) st = (st1, Inr (Some movie)) \<longrightarrow>
         (\<forall>e. UserInteraction_create db
                 \<lparr>doc_userId = user_id req, doc_movieId = params_id req,
                  doc_interactionType = t, doc_metadata = body_metadata req,
                  doc_timestamp = now\<rparr> st1 = (st2, Inl e) \<longrightarrow>
              trackInteraction db now req st = (st2, Inl e)) \<and>
         (\<forall>stored. UserInteraction_create db
                 \<lparr>doc_userId = user_id req, doc_movieId = params_id req,
                  doc_interactionType = t, doc_metadata = body_metadata req,
                  doc_timestamp = now\<rparr> st1 = (st2, Inr stored) \<longrightarrow>
              (t \<noteq> ''like'' \<longrightarrow>
                 trackInteraction db now req st =
                   (st2, Inr \<lparr>statusCode = 201, success = True, payload = stored\<rparr>)) \<and>
              (t = ''like'' \<longrightarrow>
                 (\<forall>st3 e. User_findByIdAndUpdate db (user_id req)
                             \<lparr>add_likedMovies = params_id req,
                              add_each_preferredGenres = genre movie,
                              add_preferredDirectors = director movie\<rparr> st2 = (st3, Inl e) \<longrightarrow>
                    trackInteraction db now req st = (st3, Inl e)) \<and>
                 (\<forall>st3 r. User_findByIdAndUpdate db (user_id req)
                             \<lparr>add_likedMovies = params_id req,
                              add_each_preferredGenres = genre movie,
                              add_preferredDirectors = director movie\<rparr> st2 = (st3, Inr r) \<longrightarrow>
                    trackInteraction db now req st =
                      (st3, Inr \<lparr>statusCode = 201, success = True, payload = stored\<rparr>)))))"
  proof (intro impI)
    assume "body_interactionType req = Some t \<and> t \<in> set validTypes"
    then have b': "trackInteraction db now req st = ?rhs"
      using b by blast
    show "(\<forall>st1 e. Movie_findById db (params_id req) st = (st1, Inl e) \<longrightarrow>
         trackInteraction db now req st = (st1, Inl e)) \<and>
      (\<forall>st1. Movie_findById db (params_id req) st = (st1, Inr None) \<longrightarrow>
         trackInteraction db now req st = (st1, Inl (ApiError 404 ''Movie not found''))) \<and>
      (\<forall>st1 movie st2. Movie_findById db (params_id req) st = (st1, Inr (Some movie)) \<longrightarrow>
         (\<forall>e. UserInteraction_create db
                 \<lparr>doc_userId = user_id req, doc_movieId = params_id req,
                  doc_interactionType = t, doc_metadata = body_metadata req,
                  doc_timestamp = now\<rparr> st1 = (st2, Inl e) \<longrightarrow>
              trackInteraction db now req st = (st2, Inl e)) \<and>
         (\<forall>stored. UserInteraction_create db
                 \<lparr>doc_userId = user_id req, doc_movieId = params_id req,
                  doc_interactionType = t, doc_metadata = body_metadata req,
                  doc_timestamp = now\<rparr> st1 = (st2, Inr stored) \<longrightarrow>
              (t \<noteq> ''like'' \<longrightarrow>
                 trackInteraction db now req st =
                   (st2, Inr \<lparr>statusCode = 201, success = True, payload = stored\<rparr>)) \<and>
              (t = ''like'' \<longrightarrow>
                 (\<forall>st3 e. User_findByIdAndUpdate db (user_id req)
                             \<lparr>add_likedMovies = params_id req,
                              add_each_preferredGenres = genre movie,
                              add_preferredDirectors = director movie\<rparr> st2 = (st3, Inl e) \<longrightarrow>
                    trackInteraction db now req st = (st3, Inl e)) \<and>
                 (\<forall>st3 r. User_findByIdAndUpdate db (user_id req)
                             \<lparr>add_likedMovies = params_id req,
                              add_each_preferredGenres = genre movie,
                              add_preferredDirectors = director movie\<rparr> st2 = (st3, Inr r) \<longrightarrow>
                    trackInteraction db now req st =
                      (st3, Inr \<lparr>statusCode = 201, success = True, payload = stored\<rparr>)))))"
      unfolding b' by (intro conjI allI impI; simp)
  qed
  from a c d show ?thesis
    unfolding v by blast
qed

theorem trackInteraction_accepts_four_types_witness:
  "body_interactionType (track_request ''like'' movie1_id) = Some ''like'' \<and>
   Movie_findById (memory_db catalogue0) (params_id (track_request ''like'' movie1_id)) memory0
     = (memory0, Inr (Some (mk_movie movie1_id [''Action''] 8))) \<and>
   UserInteraction_create (memory_db catalogue0)
       \<lparr>doc_userId = user1_id, doc_movieId = movie1_id, doc_interactionType = ''like'',
        doc_metadata = (), doc_timestamp = now0\<rparr> memory0
     = (\<lparr>held_interactions =
            [\<lparr>doc_userId = user1_id, doc_movieId = movie1_id, doc_interactionType = ''like'',
              doc_metadata = (), doc_timestamp = now0\<rparr>],
          held_updates = []\<rparr>,
        Inr \<lparr>doc_userId = user1_id, doc_movieId = movie1_id, doc_interactionType = ''like'',
             doc_metadata = (), doc_timestamp = now0\<rparr>) \<and>
   trackInteraction (memory_db catalogue0) now0 (track_request ''like'' movie1_id) memory0 =
     (\<lparr>held_interactions =
          [\<lparr>doc_userId = user1_id, doc_movieId = movie1_id, doc_interactionType = ''like'',
            doc_metadata = (), doc_timestamp = now0\<rparr>],
        held_updates =
          [(user1_id, \<lparr>add_likedMovies = movie1_id, add_each_preferredGenres = [''Action''],
                       add_preferredDirectors = ''Nolan''\<rparr>)]\<rparr>,
      Inr \<lparr>statusCode = 201, success = True,
           payload = \<lparr>doc_userId = user1_id, doc_movieId = movie1_id,
                      doc_interactionType = ''like'', doc_metadata = (),
                      doc_timestamp = now0\<rparr>\<rparr>) \<and>
   Movie_findById (memory_db catalogue0) (params_id (track_request ''view'' absent_id)) memory0
     = (memory0, Inr None) \<and>
   trackInteraction (memory_db catalogue0) now0 (track_request ''view'' absent_id) memory0 =
     (memory0, Inl (ApiError 404 ''Movie not found'')) \<and>
   trackInteraction (memory_db catalogue0) now0 (track_request ''rate'' movie1_id) memory0 =
     (memory0, Inl (ApiError 400 ''Invalid interaction type. Allowed: view, like, share, click''))"
  using trackInteraction_accepts_four_types
          [where req = "track_request ''like'' movie1_id" and t = "''like''"
             and db = "memory_db catalogue0" and st = memory0 and now = now0]
        trackInteraction_accepts_four_types
          [where req = "track_request ''view'' absent_id" and t = "''view''"
             and db = "memory_db catalogue0" and st = memory0 and now = now0]
        trackInteraction_accepts_four_types
          [where req = "track_request ''rate'' movie1_id" and t = "''rate''"
             and db = "memory_db catalogue0" and st = memory0 and now = now0]
  by (simp add: tracking_example_defs)

text \<open>
  C4 as stated fails. The type search is an interaction type of the schema, and a request
  of type search for a movie of the catalogue is rejected with the validation error. And
  a request of type view for a movie that the catalogue does not hold is answered with 404
  and creates no interaction record.
\<close>

theorem trackInteraction_rejects_search_and_unknown_movie:
  "''search'' \<in> set schema_interactionTypes \<and>
   Movie_findById (memory_db catalogue0) (params_id (track_request ''search'' movie1_id)) memory0
     = (memory0, Inr (Some (mk_movie movie1_id [''Action''] 8))) \<and>
   trackInteraction (memory_db catalogue0) now0 (track_request ''search'' movie1_id) memory0 =
     (memory0, Inl (ApiError 400 ''Invalid interaction type. Allowed: view, like, share, click'')) \<and>
   ''view'' \<in> set schema_interactionTypes \<and>
   trackInteraction (memory_db catalogue0) now0 (track_request ''view'' absent_id) memory0 =
     (memory0, Inl (ApiError 404 ''Movie not found'')) \<and>
   held_interactions (fst (trackInteraction (memory_db catalogue0) now0
                             (track_request ''view'' absent_id) memory0)) = []"
  by (simp add: trackInteraction_def tracking_example_defs Let_def)

section \<open>Properties of the batch insert queue\<close>

lemma run_quiescent: "quiescent s \<Longrightarrow> run s = Some s"
  by (subst run.simps) simp

lemma run_sched: "\<not> quiescent s \<Longrightarrow> run s = run (sched s)"
  by (subst run.simps) simp

lemma single_pass_new: "single_pass new_queue"
  by (simp add: single_pass_def new_queue_def)

lemma single_pass_processQueue: "single_pass s \<Longrightarrow> single_pass (processQueue s)"
  by (auto simp: single_pass_def processQueue_def suspend_new_def loop_head_def dispatch_def
        finally_block_def Let_def)

lemma single_pass_enqueue: "single_pass s \<Longrightarrow> single_pass (enqueue d f now s)"
  by (auto simp: single_pass_def enqueue_def processQueue_def suspend_new_def loop_head_def
        dispatch_def finally_block_def Let_def)

lemma single_pass_clear: "single_pass s \<Longrightarrow> single_pass (clear s)"
  by (simp add: single_pass_def clear_def)

lemma single_pass_settle: "single_pass s \<Longrightarrow> single_pass (settle i j s)"
  by (auto simp: single_pass_def settle_def settle_item_def Let_def split: pass.splits)

lemma single_pass_resume:
  "single_pass s \<Longrightarrow> i < length (passes s) \<Longrightarrow> single_pass (resume i (loop_head s))"
  by (auto simp: single_pass_def resume_def loop_head_def dispatch_def finally_block_def Let_def)

lemma single_pass_join:
  "single_pass s \<Longrightarrow> i < length (passes s) \<Longrightarrow> single_pass (join i s)"
  using single_pass_resume [of s i]
  by (auto simp: join_def) (auto simp: single_pass_def)

lemma single_pass_wake:
  "single_pass s \<Longrightarrow> i < length (passes s) \<Longrightarrow> single_pass (wake i s)"
  by (simp add: wake_def single_pass_resume)

lemma single_pass_timer: "single_pass s \<Longrightarrow> single_pass (timer_fire s)"
proof -
  assume "single_pass s"
  then have "single_pass (s\<lparr>timers := timers s - 1\<rparr>)"
    by (simp add: single_pass_def)
  then show ?thesis
    unfolding timer_fire_def by (rule single_pass_processQueue)
qed

lemma single_pass_continues: "continues s s' \<Longrightarrow> single_pass s \<Longrightarrow> single_pass s'"
  by (induction rule: continues.induct)
     (simp_all add: single_pass_settle single_pass_join single_pass_wake single_pass_timer)

lemma single_pass_step: "step s s' \<Longrightarrow> single_pass s \<Longrightarrow> single_pass s'"
  by (induction rule: step.induct)
     (simp_all add: single_pass_enqueue single_pass_processQueue single_pass_clear
        single_pass_continues)

lemma single_pass_reachable: "reachable s \<Longrightarrow> single_pass s"
  by (induction rule: reachable.induct) (simp_all add: single_pass_new single_pass_step)

lemma sched_settle_ok:
  assumes "passes s = InFlight (x # xs) # ps" "always_ok x"
  shows "sched s = s\<lparr>passes := InFlight xs # ps\<rparr>"
  using assms by (simp add: sched_def settle_def settle_item_def always_ok_def)

lemma run_settle_all_ok:
  assumes "passes s = InFlight b # ps" "\<forall>x\<in>set b. always_ok x"
  shows "run s = run (s\<lparr>passes := InFlight [] # ps\<rparr>)"
  using assms
proof (induction b arbitrary: s)
  case Nil
  then have "s\<lparr>passes := InFlight [] # ps\<rparr> = s" by simp
  then show ?case by simp
next
  case (Cons x xs)
  have "run s = run (sched s)"
    using Cons.prems by (intro run_sched) (simp add: quiescent_def)
  also have "sched s = s\<lparr>passes := InFlight xs # ps\<rparr>"
    using Cons.prems sched_settle_ok [of s x xs ps] by simp
  also have "run (s\<lparr>passes := InFlight xs # ps\<rparr>) = run (s\<lparr>passes := InFlight xs # ps, passes := InFlight [] # ps\<rparr>)"
    using Cons.prems by (intro Cons.IH) simp_all
  finally show ?case by simp
qed

text \<open>What a run from the end of a settled batch leaves behind when every queued item succeeds.\<close>

lemma run_drain_ok:
  assumes "passes s = [InFlight []]" "timers s = 0" "0 < batchSize s"
    and "\<forall>x\<in>set (queue s). always_ok x"
  shows "\<exists>s'. run s = Some s' \<and> queue s' = [] \<and> \<not> processing s' \<and> passes s' = [] \<and>
              timers s' = 0 \<and>
              events s' = events s @
                concat (map (\<lambda>c. Delay # map (\<lambda>i. Called (data i)) c) (chunks (batchSize s) (queue s)))"
  using assms
proof (induction "length (queue s)" arbitrary: s rule: less_induct)
  case less
  have nq: "\<not> quiescent s" using less.prems by (simp add: quiescent_def)
  show ?case
  proof (cases "queue s = []")
    case True
    have "sched s = s\<lparr>processing := False, passes := []\<rparr>"
      using less.prems True
      by (simp add: sched_def join_def loop_head_def finally_block_def resume_def)
    then have "run s = Some (s\<lparr>processing := False, passes := []\<rparr>)"
      using run_sched [OF nq] less.prems by (simp add: run_quiescent quiescent_def)
    then show ?thesis
      using True less.prems by (simp add: chunks.simps)
  next
    case False
    let ?b = "take (batchSize s) (queue s)"
    let ?s1 = "s\<lparr>passes := [Sleeping], events := events s @ [Delay]\<rparr>"
    let ?s2 = "s\<lparr>queue := drop (batchSize s) (queue s),
                  events := events s @ [Delay] @ map (\<lambda>i. Called (data i)) ?b,
                  passes := [InFlight ?b]\<rparr>"
    let ?s3 = "?s2\<lparr>passes := [InFlight []]\<rparr>"
    have 1: "sched s = ?s1"
      using less.prems False by (simp add: sched_def join_def)
    have 2: "sched ?s1 = ?s2"
      using False by (simp add: sched_def wake_def loop_head_def dispatch_def resume_def Let_def)
    have "run s = run ?s1"
      using run_sched [OF nq] 1 by simp
    also have "\<dots> = run ?s2"
      using run_sched [of ?s1] 2 by (simp add: quiescent_def)
    also have "\<dots> = run ?s3"
      using run_settle_all_ok [of ?s2 ?b "[]"] less.prems(4)
      by (auto dest: in_set_takeD)
    finally have r: "run s = run ?s3" .
    have "length (queue ?s3) < length (queue s)"
      using False less.prems(3) by simp
    moreover have "\<forall>x\<in>set (queue ?s3). always_ok x"
      using less.prems(4) by (auto dest: in_set_dropD)
    ultimately obtain s' where s': "run ?s3 = Some s'" "queue s' = []" "\<not> processing s'"
        "passes s' = []" "timers s' = 0"
        "events s' = events ?s3 @
           concat (map (\<lambda>c. Delay # map (\<lambda>i. Called (data i)) c) (chunks (batchSize ?s3) (queue ?s3)))"
      using less.hyps [of ?s3] less.prems by auto
    have "chunks (batchSize s) (queue s) = ?b # chunks (batchSize s) (drop (batchSize s) (queue s))"
      using False less.prems(3) by (subst chunks.simps) simp
    with s' r show ?thesis by simp
  qed
qed

lemma enqueue_idle:
  assumes "idle s" "0 < batchSize s"
  shows "enqueue d f now s =
           s\<lparr>processing := True, events := events s @ [Called d],
              passes := [InFlight [new_item (d, f, now)]]\<rparr>"
  using assms
  by (simp add: idle_def enqueue_def processQueue_def suspend_new_def loop_head_def dispatch_def
        new_item_def Let_def)

lemma enqueue_busy:
  assumes "processing s"
  shows "enqueue d f now s = s\<lparr>queue := queue s @ [new_item (d, f, now)]\<rparr>"
  using assms by (simp add: enqueue_def new_item_def Let_def)

lemma enqueue_all_busy:
  assumes "processing s"
  shows "enqueue_all items s = s\<lparr>queue := queue s @ map new_item items\<rparr>"
  using assms
proof (induction items arbitrary: s)
  case Nil
  then show ?case by (simp add: enqueue_all_def)
next
  case (Cons x xs)
  obtain d f now where x: "x = (d, f, now)" by (cases x) auto
  have "enqueue_all (x # xs) s = enqueue_all xs (enqueue d f now s)"
    by (simp add: enqueue_all_def x)
  also have "\<dots> = enqueue_all xs (s\<lparr>queue := queue s @ [new_item x]\<rparr>)"
    using Cons.prems by (simp add: enqueue_busy x)
  also have "\<dots> = s\<lparr>queue := queue s @ [new_item x], queue := (queue s @ [new_item x]) @ map new_item xs\<rparr>"
    using Cons.prems Cons.IH [of "s\<lparr>queue := queue s @ [new_item x]\<rparr>"] by simp
  finally show ?case by simp
qed

lemma chunks_map: "chunks n (map f xs) = map (map f) (chunks n xs)"
proof (induction n xs rule: chunks.induct)
  case (1 n xs)
  show ?case
  proof (cases "n = 0 \<or> xs = []")
    case True
    then show ?thesis by (auto simp: chunks.simps)
  next
    case False
    then have "chunks n (map f xs) = take n (map f xs) # chunks n (drop n (map f xs))"
      by (subst chunks.simps) simp
    also have "\<dots> = map f (take n xs) # map (map f) (chunks n (drop n xs))"
      using 1 False by (simp add: take_map drop_map)
    also have "\<dots> = map (map f) (chunks n xs)"
      using False by (subst (2) chunks.simps) simp
    finally show ?thesis .
  qed
qed

lemma chunks_length: "c \<in> set (chunks n xs) \<Longrightarrow> length c \<le> n \<and> c \<noteq> []"
proof (induction n xs rule: chunks.induct)
  case (1 n xs)
  show ?case
  proof (cases "n = 0 \<or> xs = []")
    case True
    with 1 show ?thesis by (auto simp: chunks.simps)
  next
    case False
    then have "chunks n xs = take n xs # chunks n (drop n xs)"
      by (subst chunks.simps) simp
    with 1 False show ?thesis by auto
  qed
qed

lemma concat_chunks: "0 < n \<Longrightarrow> concat (chunks n xs) = xs"
proof (induction n xs rule: chunks.induct)
  case (1 n xs)
  show ?case
  proof (cases "xs = []")
    case True
    then show ?thesis by (simp add: chunks.simps)
  next
    case False
    then have "chunks n xs = take n xs # chunks n (drop n xs)"
      using 1 by (subst chunks.simps) simp
    with 1 False show ?thesis by simp
  qed
qed

lemma calls_append: "calls (xs @ ys) = calls xs @ calls ys"
  by (simp add: calls_def)

lemma calls_Called: "calls (Called d # es) = d # calls es"
  by (simp add: calls_def)

lemma calls_batches:
  "calls (concat (map (\<lambda>c. Delay # map Called c) cs)) = concat cs"
  by (induction cs) (simp_all add: calls_def comp_def)

lemma idle_run_all_ok:
  assumes "idle s" and "0 < batchSize s"
    and "\<forall>x\<in>set items. always_ok (new_item x)"
  shows "\<exists>s'. run (enqueue_all items s) = Some s' \<and>
              queue s' = [] \<and> \<not> processing s' \<and> passes s' = [] \<and> timers s' = 0 \<and>
              events s' = events s @
                (case items of
                   [] \<Rightarrow> []
                 | x # rest \<Rightarrow>
                     Called (fst x) #
                     concat (map (\<lambda>c. Delay # map Called c) (chunks (batchSize s) (map fst rest)))) \<and>
              calls (events s') = calls (events s) @ map fst items \<and>
              (\<forall>c\<in>set (chunks (batchSize s) (map fst (tl items))). length c \<le> batchSize s)"
proof (cases items)
  case Nil
  have "run (enqueue_all items s) = Some s"
    using assms(1) by (simp add: Nil enqueue_all_def run_quiescent quiescent_def idle_def)
  then show ?thesis
    using assms(1) by (simp add: Nil idle_def chunks.simps)
next
  case (Cons x rest)
  obtain d f now where x: "x = (d, f, now)" by (cases x) auto
  let ?s1 = "s\<lparr>processing := True, events := events s @ [Called d],
               passes := [InFlight [new_item x]]\<rparr>"
  let ?s2 = "?s1\<lparr>queue := map new_item rest\<rparr>"
  let ?s3 = "?s2\<lparr>passes := [InFlight []]\<rparr>"
  have q: "queue s = []" using assms(1) by (simp add: idle_def)
  have "enqueue_all items s = enqueue_all rest (enqueue d f now s)"
    by (simp add: Cons x enqueue_all_def)
  also have "\<dots> = enqueue_all rest ?s1"
    using enqueue_idle [OF assms(1,2)] by (simp add: x)
  also have "\<dots> = ?s2"
    using enqueue_all_busy [of ?s1 rest] q by simp
  finally have e: "enqueue_all items s = ?s2" .
  have "run ?s2 = run ?s3"
    using run_settle_all_ok [of ?s2 "[new_item x]" "[]"] assms(3) by (simp add: Cons)
  moreover have "\<exists>s'. run ?s3 = Some s' \<and> queue s' = [] \<and> \<not> processing s' \<and> passes s' = [] \<and>
              timers s' = 0 \<and>
              events s' = events ?s3 @
                concat (map (\<lambda>c. Delay # map (\<lambda>i. Called (data i)) c)
                          (chunks (batchSize ?s3) (queue ?s3)))"
    using assms by (intro run_drain_ok) (auto simp: idle_def Cons)
  ultimately obtain s' where s': "run (enqueue_all items s) = Some s'" "queue s' = []"
      "\<not> processing s'" "passes s' = []" "timers s' = 0"
      "events s' = events ?s3 @
         concat (map (\<lambda>c. Delay # map (\<lambda>i. Called (data i)) c)
                   (chunks (batchSize ?s3) (queue ?s3)))"
    using e by auto
  have dn: "data (new_item y) = fst y" for y :: "'a \<times> ('a \<Rightarrow> nat \<Rightarrow> bool) \<times> int"
    by (cases y) (simp add: new_item_def)
  have "map (\<lambda>c. Delay # map (\<lambda>i. Called (data i)) c) (chunks (batchSize s) (map new_item rest))
        = map (\<lambda>c. Delay # map Called c) (chunks (batchSize s) (map fst rest))"
    by (simp add: chunks_map [of _ new_item] chunks_map [of _ fst] comp_def dn)
  with s'(6) have ev: "events s' = events s @ Called d #
      concat (map (\<lambda>c. Delay # map Called c) (chunks (batchSize s) (map fst rest)))"
    by simp
  have "calls (events s') = calls (events s) @ d # map fst rest"
    unfolding ev
    by (simp add: calls_append calls_Called calls_batches concat_chunks [OF assms(2)])
  with s' ev show ?thesis
    by (auto simp: Cons x dest: chunks_length)
qed

lemma run_retry_loop:
  assumes "passes s = [InFlight [item]]" "queue s = []" "timers s = 0" "0 < batchSize s"
    and "always_fails item" "retries item \<le> maxRetries s"
  shows "\<exists>s'. run s = Some s' \<and> queue s' = [] \<and> \<not> processing s' \<and> passes s' = [] \<and>
              timers s' = 0 \<and>
              events s' = events s @
                concat (replicate (maxRetries s - retries item) [Delay, Called (data item)]) @
                [TerminalFailure (data item)]"
  using assms
proof (induction "maxRetries s - retries item" arbitrary: s item)
  case 0
  let ?s1 = "s\<lparr>events := events s @ [TerminalFailure (data item)], passes := [InFlight []]\<rparr>"
  let ?s2 = "?s1\<lparr>processing := False, passes := []\<rparr>"
  have 1: "sched s = ?s1"
    using 0 by (simp add: sched_def settle_def settle_item_def always_fails_def)
  have 2: "sched ?s1 = ?s2"
    using 0 by (simp add: sched_def join_def loop_head_def finally_block_def resume_def)
  have "run s = run ?s1"
    using run_sched [of s] 1 0 by (simp add: quiescent_def)
  also have "\<dots> = run ?s2"
    using run_sched [of ?s1] 2 by (simp add: quiescent_def)
  also have "\<dots> = Some ?s2"
    using 0 by (simp add: run_quiescent quiescent_def)
  finally show ?case
    using 0 by simp
next
  case (Suc k)
  let ?item = "item\<lparr>retries := retries item + 1\<rparr>"
  let ?s1 = "s\<lparr>queue := [?item], passes := [InFlight []]\<rparr>"
  let ?s2 = "?s1\<lparr>passes := [Sleeping], events := events s @ [Delay]\<rparr>"
  let ?s3 = "s\<lparr>queue := [], events := events s @ [Delay, Called (data item)],
                 passes := [InFlight [?item]]\<rparr>"
  have lt: "retries item < maxRetries s" using Suc.hyps(2) by simp
  have 1: "sched s = ?s1"
    using Suc.prems lt by (simp add: sched_def settle_def settle_item_def always_fails_def)
  have 2: "sched ?s1 = ?s2"
    by (simp add: sched_def join_def)
  have 3: "sched ?s2 = ?s3"
    using Suc.prems(4)
    by (simp add: sched_def wake_def loop_head_def dispatch_def resume_def Let_def)
  have "run s = run ?s1"
    using run_sched [of s] 1 Suc.prems by (simp add: quiescent_def)
  also have "\<dots> = run ?s2"
    using run_sched [of ?s1] 2 by (simp add: quiescent_def)
  also have "\<dots> = run ?s3"
    using run_sched [of ?s2] 3 by (simp add: quiescent_def)
  finally have r: "run s = run ?s3" .
  have "\<exists>s'. run ?s3 = Some s' \<and> queue s' = [] \<and> \<not> processing s' \<and> passes s' = [] \<and>
              timers s' = 0 \<and>
              events s' = events ?s3 @
                concat (replicate (maxRetries ?s3 - retries ?item) [Delay, Called (data ?item)]) @
                [TerminalFailure (data ?item)]"
    using Suc.prems Suc.hyps(2) lt
    by (intro Suc.hyps(1)) (auto simp: always_fails_def)
  moreover have "maxRetries s - retries item = Suc (maxRetries s - Suc (retries item))"
    using lt by simp
  ultimately show ?case
    using r by auto
qed

lemma pending_sched: "pending (sched s) \<le> pending s"
proof (cases "passes s")
  case Nil
  then show ?thesis
    by (auto simp: sched_def timer_fire_def processQueue_def suspend_new_def loop_head_def
          dispatch_def pending_def Let_def)
next
  case (Cons p ps)
  show ?thesis
  proof (cases p)
    case Sleeping
    with Cons show ?thesis
      by (auto simp: sched_def wake_def loop_head_def dispatch_def finally_block_def resume_def
            pending_def Let_def)
  next
    case (InFlight b)
    show ?thesis
    proof (cases b)
      case Nil
      with Cons InFlight show ?thesis
        by (auto simp: sched_def join_def loop_head_def dispatch_def finally_block_def resume_def
              pending_def Let_def)
    next
      case (Cons x xs)
      with \<open>passes s = p # ps\<close> InFlight show ?thesis
        by (auto simp: sched_def settle_def settle_item_def pending_def Let_def)
    qed
  qed
qed

lemma idle_new_queue: "idle new_queue"
  by (simp add: idle_def new_queue_def)

lemma idle_run_failing:
  assumes "idle s" and "0 < batchSize s" and "\<forall>n. \<not> f d n"
  shows "\<exists>s'. run (enqueue d f now s) = Some s' \<and>
              events s' = events s @ Called d #
                 concat (replicate (maxRetries s) [Delay, Called d]) @ [TerminalFailure d]"
proof -
  let ?item = "new_item (d, f, now)"
  let ?s1 = "s\<lparr>processing := True, events := events s @ [Called d], passes := [InFlight [?item]]\<rparr>"
  have e: "enqueue d f now s = ?s1"
    by (rule enqueue_idle [OF assms(1,2)])
  have item: "data ?item = d" "retries ?item = 0" "always_fails ?item"
    using assms(3) by (simp_all add: new_item_def always_fails_def)
  have "\<exists>s'. run ?s1 = Some s' \<and> queue s' = [] \<and> \<not> processing s' \<and> passes s' = [] \<and>
              timers s' = 0 \<and>
              events s' = events ?s1 @
                concat (replicate (maxRetries ?s1 - retries ?item) [Delay, Called (data ?item)]) @
                [TerminalFailure (data ?item)]"
    using assms(1,2) item by (intro run_retry_loop) (simp_all add: idle_def)
  then show ?thesis
    using e item by auto
qed

lemma tries_pos: "0 < tries maxR ok r"
  by (subst tries.simps) simp

lemma attempts_pos: "0 < attempts maxR x"
  by (simp add: attempts_def tries_pos)

lemma attempts_ok:
  "insertFunction x (data x) (retries x) \<Longrightarrow> attempts maxR x = 1"
  by (simp add: attempts_def tries.simps)

lemma attempts_last:
  "\<not> retries x < maxR \<Longrightarrow> attempts maxR x = 1"
  by (simp add: attempts_def tries.simps)

lemma attempts_retry:
  "\<not> insertFunction x (data x) (retries x) \<Longrightarrow> retries x < maxR \<Longrightarrow>
   attempts maxR (x\<lparr>retries := Suc (retries x)\<rparr>) = attempts maxR x - 1"
  by (simp add: attempts_def) (subst (2) tries.simps, simp)

lemma doomed_ok:
  "insertFunction x (data x) (retries x) \<Longrightarrow> \<not> doomed maxR x"
  by (simp add: doomed_def gives_up.simps)

lemma doomed_last:
  "\<not> insertFunction x (data x) (retries x) \<Longrightarrow> \<not> retries x < maxR \<Longrightarrow> doomed maxR x"
  by (simp add: doomed_def gives_up.simps)

lemma doomed_retry:
  "\<not> insertFunction x (data x) (retries x) \<Longrightarrow> retries x < maxR \<Longrightarrow>
   doomed maxR (x\<lparr>retries := Suc (retries x)\<rparr>) = doomed maxR x"
  by (simp add: doomed_def) (subst (2) gives_up.simps, simp)

lemma tries_always_fails:
  "\<forall>n. \<not> ok n \<Longrightarrow> r \<le> maxR \<Longrightarrow> tries maxR ok r = Suc (maxR - r)"
proof (induction "maxR - r" arbitrary: r)
  case 0
  then show ?case by (subst tries.simps) simp
next
  case (Suc k)
  then have "tries maxR ok (Suc r) = Suc (maxR - Suc r)" by simp
  with Suc show ?case by (subst tries.simps) auto
qed

lemma gives_up_always_fails:
  "\<forall>n. \<not> ok n \<Longrightarrow> gives_up maxR ok r"
proof (induction "maxR - r" arbitrary: r)
  case 0
  then show ?case by (subst gives_up.simps) simp
next
  case (Suc k)
  then have "gives_up maxR ok (Suc r)" by simp
  with Suc show ?case by (subst gives_up.simps) auto
qed

lemma tries_always_ok: "\<forall>n. ok n \<Longrightarrow> tries maxR ok r = 1"
  by (subst tries.simps) simp

lemma gives_up_always_ok: "\<forall>n. ok n \<Longrightarrow> \<not> gives_up maxR ok r"
  by (subst gives_up.simps) simp

lemma failures_append: "failures (xs @ ys) = failures xs @ failures ys"
  by (simp add: failures_def)

lemma calls_map_Called: "calls (map (\<lambda>x. Called (f x)) b) = map f b"
  by (induction b) (simp_all add: calls_def)

lemma failures_map_Called: "failures (map (\<lambda>x. Called (f x)) b) = []"
  by (induction b) (simp_all add: failures_def)

lemma sum_list_take_drop:
  fixes f :: "'b \<Rightarrow> 'c::comm_monoid_add"
  shows "sum_list (map f (take n xs)) + sum_list (map f (drop n xs)) = sum_list (map f xs)"
proof -
  have "sum_list (map f xs) = sum_list (map f (take n xs @ drop n xs))"
    by simp
  then show ?thesis
    by (simp del: append_take_drop_id)
qed

lemma owed_in_flight_batch:
  "mset (map data b) + sum_list (map (\<lambda>x. replicate_mset (attempts m x - 1) (data x)) b)
   = sum_list (map (\<lambda>x. replicate_mset (attempts m x) (data x)) b)"
proof (induction b)
  case Nil
  show ?case by simp
next
  case (Cons x b)
  have "replicate_mset (attempts m x) (data x)
          = add_mset (data x) (replicate_mset (attempts m x - 1) (data x))"
    using attempts_pos [of m x] by (cases "attempts m x") simp_all
  with Cons show ?case by (simp add: ac_simps)
qed

lemma sum_list_mset_cong:
  fixes f :: "'b \<Rightarrow> 'c::comm_monoid_add"
  shows "mset xs = mset ys \<Longrightarrow> sum_list (map f xs) = sum_list (map f ys)"
  by (metis mset_map sum_mset_sum_list)

lemma total_calls_after_dispatch:
  assumes "mset (in_flight (s\<lparr>passes := ps\<rparr>)) = mset (in_flight s @ take (batchSize s) (queue s))"
  shows "total_calls (after_dispatch s ps) = total_calls s"
proof -
  let ?b = "take (batchSize s) (queue s)"
  let ?m = "maxRetries s"
  have "mset (in_flight (after_dispatch s ps)) = mset (in_flight s @ ?b)"
    using assms by (simp add: in_flight_def after_dispatch_def)
  then have i: "sum_list (map f (in_flight (after_dispatch s ps))) = sum_list (map f (in_flight s @ ?b))"
    for f :: "'a queueItem \<Rightarrow> 'a multiset"
    by (rule sum_list_mset_cong)
  have "total_calls (after_dispatch s ps)
        = mset (calls (events s)) + mset (map data ?b)
          + sum_list (map (\<lambda>x. replicate_mset (attempts ?m x) (data x)) (drop (batchSize s) (queue s)))
          + (sum_list (map (\<lambda>x. replicate_mset (attempts ?m x - 1) (data x)) (in_flight s))
             + sum_list (map (\<lambda>x. replicate_mset (attempts ?m x - 1) (data x)) ?b))"
    unfolding total_calls_def i
    by (simp add: after_dispatch_def calls_append calls_map_Called)
  also have "\<dots> = mset (calls (events s))
          + (sum_list (map (\<lambda>x. replicate_mset (attempts ?m x) (data x)) ?b)
             + sum_list (map (\<lambda>x. replicate_mset (attempts ?m x) (data x)) (drop (batchSize s) (queue s))))
          + sum_list (map (\<lambda>x. replicate_mset (attempts ?m x - 1) (data x)) (in_flight s))"
    by (simp add: owed_in_flight_batch [symmetric] ac_simps)
  also have "\<dots> = total_calls s"
    by (simp only: sum_list_take_drop total_calls_def)
  finally show ?thesis .
qed

lemma total_failures_after_dispatch:
  assumes "mset (in_flight (s\<lparr>passes := ps\<rparr>)) = mset (in_flight s @ take (batchSize s) (queue s))"
  shows "total_failures (after_dispatch s ps) = total_failures s"
proof -
  let ?b = "take (batchSize s) (queue s)"
  let ?t = "after_dispatch s ps"
  have i: "mset (in_flight ?t) = mset (in_flight s @ ?b)"
    using assms by (simp add: in_flight_def after_dispatch_def)
  have td: "mset ?b + mset (drop (batchSize s) (queue s)) = mset (queue s)"
    by (metis append_take_drop_id mset_append)
  have "mset (queue ?t @ in_flight ?t)
          = (mset ?b + mset (drop (batchSize s) (queue s))) + mset (in_flight s)"
    using i by (simp add: after_dispatch_def)
  also have "\<dots> = mset (queue s @ in_flight s)"
    by (simp only: td mset_append)
  finally have "mset (map data (filter (doomed (maxRetries s)) (queue ?t @ in_flight ?t)))
           = mset (map data (filter (doomed (maxRetries s)) (queue s @ in_flight s)))"
    by (metis mset_filter mset_map)
  moreover have "maxRetries ?t = maxRetries s" "failures (events ?t) = failures (events s)"
    by (simp_all add: after_dispatch_def failures_append failures_map_Called)
  ultimately show ?thesis
    unfolding total_failures_def by simp
qed

lemma sched_cases [case_names quiet timer_skip timer_start pause finish settle_ok settle_retry
    settle_drop next_batch]:
  obtains
    "quiescent s"
  | "passes s = []" "0 < timers s" "processing s \<or> queue s = []"
      "sched s = s\<lparr>timers := timers s - 1\<rparr>"
  | "passes s = []" "0 < timers s" "\<not> processing s" "queue s \<noteq> []"
      "sched s = after_dispatch (s\<lparr>timers := timers s - 1, processing := True\<rparr>)
                   [InFlight (take (batchSize s) (queue s))]"
  | ps where "passes s = InFlight [] # ps" "queue s \<noteq> []"
      "sched s = s\<lparr>passes := Sleeping # ps, events := events s @ [Delay]\<rparr>"
  | p ps where "passes s = p # ps" "p = InFlight [] \<or> p = Sleeping" "queue s = []"
      "sched s = s\<lparr>processing := False, passes := ps\<rparr>"
  | x xs ps where "passes s = InFlight (x # xs) # ps" "insertFunction x (data x) (retries x)"
      "sched s = s\<lparr>passes := InFlight xs # ps\<rparr>"
  | x xs ps where "passes s = InFlight (x # xs) # ps" "\<not> insertFunction x (data x) (retries x)"
      "retries x < maxRetries s"
      "sched s = s\<lparr>queue := queue s @ [x\<lparr>retries := retries x + 1\<rparr>], passes := InFlight xs # ps\<rparr>"
  | x xs ps where "passes s = InFlight (x # xs) # ps" "\<not> insertFunction x (data x) (retries x)"
      "\<not> retries x < maxRetries s"
      "sched s = s\<lparr>events := events s @ [TerminalFailure (data x)], passes := InFlight xs # ps\<rparr>"
  | ps where "passes s = Sleeping # ps" "queue s \<noteq> []"
      "sched s = after_dispatch s (InFlight (take (batchSize s) (queue s)) # ps)"
proof (cases "passes s")
  case Nil
  show ?thesis
  proof (cases "0 < timers s")
    case False
    with Nil have "quiescent s" by (simp add: quiescent_def)
    then show ?thesis by (rule that(1))
  next
    case True
    show ?thesis
    proof (cases "processing s \<or> queue s = []")
      case True
      with Nil \<open>0 < timers s\<close> show ?thesis
        by (intro that(2)) (auto simp: sched_def timer_fire_def processQueue_def)
    next
      case False
      with Nil \<open>0 < timers s\<close> show ?thesis
        by (intro that(3))
           (auto simp: sched_def timer_fire_def processQueue_def suspend_new_def loop_head_def
              dispatch_def after_dispatch_def Let_def)
    qed
  qed
next
  case (Cons p ps)
  show ?thesis
  proof (cases p)
    case Sleeping
    show ?thesis
    proof (cases "queue s = []")
      case True
      with Cons Sleeping show ?thesis
        by (intro that(5) [of p ps])
           (auto simp: sched_def wake_def loop_head_def finally_block_def resume_def)
    next
      case False
      with Cons Sleeping show ?thesis
        by (intro that(9) [of ps])
           (auto simp: sched_def wake_def loop_head_def dispatch_def resume_def
              after_dispatch_def Let_def)
    qed
  next
    case (InFlight b)
    show ?thesis
    proof (cases b)
      case Nil
      show ?thesis
      proof (cases "queue s = []")
        case True
        with Cons InFlight Nil show ?thesis
          by (intro that(5) [of p ps])
             (auto simp: sched_def join_def loop_head_def finally_block_def resume_def)
      next
        case False
        with Cons InFlight Nil show ?thesis
          by (intro that(4) [of ps]) (auto simp: sched_def join_def)
      qed
    next
      case (Cons x xs)
      from \<open>passes s = p # ps\<close> InFlight Cons
      have ps: "passes s = InFlight (x # xs) # ps" by simp
      show ?thesis
      proof (cases "insertFunction x (data x) (retries x)")
        case True
        with ps show ?thesis
          by (intro that(6) [of x xs ps]) (auto simp: sched_def settle_def settle_item_def)
      next
        case False
        show ?thesis
        proof (cases "retries x < maxRetries s")
          case True
          with ps False show ?thesis
            by (intro that(7) [of x xs ps]) (auto simp: sched_def settle_def settle_item_def)
        next
          case nlt: False
          with ps False show ?thesis
            by (intro that(8) [of x xs ps]) (auto simp: sched_def settle_def settle_item_def)
        qed
      qed
    qed
  qed
qed

lemma in_flight_Cons:
  "passes s = p # ps \<Longrightarrow>
   in_flight s = (case p of InFlight b \<Rightarrow> b | Sleeping \<Rightarrow> []) @ in_flight (s\<lparr>passes := ps\<rparr>)"
  by (simp add: in_flight_def)

lemma total_calls_sched: "total_calls (sched s) = total_calls s"
proof (cases s rule: sched_cases)
  case quiet
  then show ?thesis by (simp add: sched_def quiescent_def)
next
  case timer_skip
  then show ?thesis by (simp add: total_calls_def in_flight_def)
next
  case timer_start
  let ?s = "s\<lparr>timers := timers s - 1, processing := True\<rparr>"
  have "total_calls (after_dispatch ?s [InFlight (take (batchSize ?s) (queue ?s))]) = total_calls ?s"
    using timer_start(1) by (intro total_calls_after_dispatch) (simp add: in_flight_def)
  with timer_start show ?thesis by (simp add: total_calls_def in_flight_def)
next
  case (pause ps)
  then show ?thesis by (simp add: total_calls_def in_flight_def calls_append) (simp add: calls_def)
next
  case (finish p ps)
  then show ?thesis by (auto simp: total_calls_def in_flight_def)
next
  case (settle_ok x xs ps)
  then show ?thesis by (simp add: total_calls_def in_flight_def attempts_ok)
next
  case (settle_retry x xs ps)
  then show ?thesis by (simp add: total_calls_def in_flight_def attempts_retry)
next
  case (settle_drop x xs ps)
  then show ?thesis
    by (simp add: total_calls_def in_flight_def attempts_last calls_append) (simp add: calls_def)
next
  case (next_batch ps)
  have "total_calls (after_dispatch s (InFlight (take (batchSize s) (queue s)) # ps)) = total_calls s"
    using next_batch(1) by (intro total_calls_after_dispatch) (simp add: in_flight_def)
  with next_batch show ?thesis by simp
qed

lemma total_failures_sched: "total_failures (sched s) = total_failures s"
proof (cases s rule: sched_cases)
  case quiet
  then show ?thesis by (simp add: sched_def quiescent_def)
next
  case timer_skip
  then show ?thesis by (simp add: total_failures_def in_flight_def)
next
  case timer_start
  let ?s = "s\<lparr>timers := timers s - 1, processing := True\<rparr>"
  have "total_failures (after_dispatch ?s [InFlight (take (batchSize ?s) (queue ?s))]) = total_failures ?s"
    using timer_start(1) by (intro total_failures_after_dispatch) (simp add: in_flight_def)
  with timer_start show ?thesis by (simp add: total_failures_def in_flight_def)
next
  case (pause ps)
  then show ?thesis
    by (simp add: total_failures_def in_flight_def failures_append) (simp add: failures_def)
next
  case (finish p ps)
  then show ?thesis by (auto simp: total_failures_def in_flight_def)
next
  case (settle_ok x xs ps)
  then show ?thesis by (simp add: total_failures_def in_flight_def doomed_ok)
next
  case (settle_retry x xs ps)
  then show ?thesis by (simp add: total_failures_def in_flight_def doomed_retry)
next
  case (settle_drop x xs ps)
  then show ?thesis
    by (simp add: total_failures_def in_flight_def doomed_last failures_append)
       (simp add: failures_def)
next
  case (next_batch ps)
  have "total_failures (after_dispatch s (InFlight (take (batchSize s) (queue s)) # ps)) = total_failures s"
    using next_batch(1) by (intro total_failures_after_dispatch) (simp add: in_flight_def)
  with next_batch show ?thesis by simp
qed

lemma sched_parameters: "batchSize (sched s) = batchSize s \<and> maxRetries (sched s) = maxRetries s"
  by (cases s rule: sched_cases) (simp_all add: sched_def quiescent_def after_dispatch_def)

lemma weight_after_dispatch:
  assumes "mset (in_flight (s\<lparr>passes := ps\<rparr>)) = mset (in_flight s @ take (batchSize s) (queue s))"
    and "0 < batchSize s" "queue s \<noteq> []"
  shows "weight (after_dispatch s ps) < weight s"
proof -
  let ?b = "take (batchSize s) (queue s)"
  let ?m = "maxRetries s"
  have "mset (in_flight (after_dispatch s ps)) = mset (in_flight s @ ?b)"
    using assms by (simp add: in_flight_def after_dispatch_def)
  then have i: "sum_list (map f (in_flight (after_dispatch s ps))) = sum_list (map f (in_flight s @ ?b))"
    for f :: "'a queueItem \<Rightarrow> nat"
    by (rule sum_list_mset_cong)
  have lt: "sum_list (map (\<lambda>x. 2 * attempts ?m x - 1) b) < sum_list (map (\<lambda>x. 2 * attempts ?m x) b)"
    if "b \<noteq> []" for b :: "'a queueItem list"
    using that
  proof (induction b)
    case Nil
    then show ?case by simp
  next
    case (Cons x b)
    have "sum_list (map (\<lambda>x. 2 * attempts ?m x - 1) b) \<le> sum_list (map (\<lambda>x. 2 * attempts ?m x) b)"
      by (rule sum_list_mono) simp
    then show ?case
      using attempts_pos [of ?m x] by simp
  qed
  have "?b \<noteq> []" using assms(2,3) by simp
  from lt [OF this]
  have "sum_list (map (\<lambda>x. 2 * attempts ?m x - 1) ?b)
          + sum_list (map (\<lambda>x. 2 * attempts ?m x) (drop (batchSize s) (queue s)))
        < sum_list (map (\<lambda>x. 2 * attempts ?m x) ?b)
          + sum_list (map (\<lambda>x. 2 * attempts ?m x) (drop (batchSize s) (queue s)))"
    by simp
  also have "\<dots> = sum_list (map (\<lambda>x. 2 * attempts ?m x) (queue s))"
    by (rule sum_list_take_drop)
  finally show ?thesis
    unfolding weight_def i by (simp add: after_dispatch_def)
qed

lemma sched_decreases:
  assumes "0 < batchSize s" "\<not> quiescent s"
  shows "(sched s, s) \<in> measures [weight, rank]"
proof (cases s rule: sched_cases)
  case quiet
  with assms show ?thesis by simp
next
  case timer_skip
  then show ?thesis by (simp add: weight_def rank_def in_flight_def)
next
  case timer_start
  let ?s = "s\<lparr>timers := timers s - 1, processing := True\<rparr>"
  have "weight (after_dispatch ?s [InFlight (take (batchSize ?s) (queue ?s))]) < weight ?s"
    using timer_start(1,4) assms(1) by (intro weight_after_dispatch) (simp_all add: in_flight_def)
  with timer_start show ?thesis by (simp add: weight_def in_flight_def)
next
  case (pause ps)
  then show ?thesis by (simp add: weight_def rank_def in_flight_def)
next
  case (finish p ps)
  then show ?thesis by (auto simp: weight_def rank_def in_flight_def)
next
  case (settle_ok x xs ps)
  then have "weight (sched s) < weight s"
    using attempts_pos [of "maxRetries s" x] by (simp add: weight_def in_flight_def; linarith)
  then show ?thesis by simp
next
  case (settle_retry x xs ps)
  then have "weight (sched s) < weight s"
    using attempts_pos [of "maxRetries s" x]
    by (simp add: weight_def in_flight_def attempts_retry; linarith)
  then show ?thesis by simp
next
  case (settle_drop x xs ps)
  then have "weight (sched s) < weight s"
    using attempts_pos [of "maxRetries s" x] by (simp add: weight_def in_flight_def; linarith)
  then show ?thesis by simp
next
  case (next_batch ps)
  have "weight (after_dispatch s (InFlight (take (batchSize s) (queue s)) # ps)) < weight s"
    using next_batch(1,2) assms(1) by (intro weight_after_dispatch) (simp_all add: in_flight_def)
  with next_batch show ?thesis by simp
qed

lemma sched_continues: "\<not> quiescent s \<Longrightarrow> continues s (sched s)"
proof (cases "passes s")
  case Nil
  assume "\<not> quiescent s"
  with Nil have "0 < timers s" by (simp add: quiescent_def)
  then have "continues s (timer_fire s)" by (rule timer_fires)
  with Nil \<open>0 < timers s\<close> show ?thesis by (simp add: sched_def)
next
  case (Cons p ps)
  show ?thesis
  proof (cases p)
    case Sleeping
    with Cons have "continues s (wake 0 s)" by (intro wakes) simp_all
    with Cons Sleeping show ?thesis by (simp add: sched_def)
  next
    case (InFlight b)
    show ?thesis
    proof (cases b)
      case Nil
      with Cons InFlight have "continues s (join 0 s)" by (intro joins) simp_all
      with Cons InFlight Nil show ?thesis by (simp add: sched_def)
    next
      case (Cons x xs)
      with \<open>passes s = p # ps\<close> InFlight have "continues s (settle 0 0 s)"
        by (intro settles [where items = "x # xs"]) simp_all
      with \<open>passes s = p # ps\<close> InFlight Cons show ?thesis by (simp add: sched_def)
    qed
  qed
qed

lemma sched_is_step: "\<not> quiescent s \<Longrightarrow> step s (sched s)"
  by (rule step_continues) (rule sched_continues)

lemma consistent_step:
  assumes "step s s'" "consistent s"
  shows "consistent s'"
proof -
  have sp: "single_pass s'"
    using assms by (auto simp: consistent_def intro: single_pass_step)
  have sp0: "single_pass s" and t0: "timers s = 0" and q0: "processing s \<or> queue s = []"
    using assms(2) by (simp_all add: consistent_def)
  have "timers s' = 0 \<and> (processing s' \<or> queue s' = [])"
    using assms(1)
  proof cases
    case (step_enqueue d f now)
    with t0 q0 show ?thesis
      by (auto simp: enqueue_def processQueue_def suspend_new_def loop_head_def dispatch_def Let_def)
  next
    case step_processQueue
    with t0 q0 show ?thesis
      by (auto simp: processQueue_def)
  next
    case step_clear
    with t0 show ?thesis by (simp add: clear_def)
  next
    case step_continues
    then show ?thesis
    proof cases
      case (settles i items j)
      then have "passes s \<noteq> []" by auto
      then have "processing s" using sp0 by (simp add: single_pass_def)
      with settles t0 show ?thesis
        by (auto simp: settle_def settle_item_def Let_def)
    next
      case (joins i)
      then have "passes s \<noteq> []" by auto
      then have "processing s" using sp0 by (simp add: single_pass_def)
      with joins t0 show ?thesis
        by (auto simp: join_def loop_head_def finally_block_def resume_def)
    next
      case (wakes i)
      then have "passes s \<noteq> []" by auto
      then have "processing s" using sp0 by (simp add: single_pass_def)
      with wakes t0 show ?thesis
        by (auto simp: wake_def loop_head_def dispatch_def finally_block_def resume_def Let_def)
    next
      case timer_fires
      with t0 show ?thesis by simp
    qed
  qed
  with sp show ?thesis by (simp add: consistent_def)
qed

lemma continues_parameters:
  "continues s s' \<Longrightarrow> batchSize s' = batchSize s \<and> maxRetries s' = maxRetries s"
  by (induction rule: continues.induct)
     (auto simp: processQueue_def suspend_new_def loop_head_def dispatch_def
        finally_block_def resume_def settle_def settle_item_def join_def wake_def
        timer_fire_def Let_def split: pass.splits)

lemma step_parameters:
  "step s s' \<Longrightarrow> batchSize s' = batchSize s \<and> maxRetries s' = maxRetries s"
  by (induction rule: step.induct)
     (auto simp: enqueue_def processQueue_def suspend_new_def loop_head_def dispatch_def
        clear_def continues_parameters Let_def)

lemma consistent_reachable:
  "reachable s \<Longrightarrow> consistent s \<and> batchSize s = 10 \<and> maxRetries s = 3"
proof (induction rule: reachable.induct)
  case reachable_new
  show ?case by (simp add: consistent_def single_pass_def new_queue_def)
next
  case (reachable_step s s')
  then show ?case using consistent_step step_parameters by metis
qed

lemma consistent_idle: "idle s \<Longrightarrow> consistent s"
  by (simp add: idle_def consistent_def single_pass_def)

text \<open>
  A run returns whenever the batch size is positive, and what the scheduler's step
  preserves holds of the state it returns.
\<close>

lemma run_returns:
  assumes "0 < batchSize s" "I s"
    and "\<And>t. I t \<Longrightarrow> \<not> quiescent t \<Longrightarrow> I (sched t)"
  shows "\<exists>s'. run s = Some s' \<and> quiescent s' \<and> I s'"
  using assms(1,2)
proof (induction s rule: wf_induct_rule [OF wf_measures [of "[weight, rank]"]])
  case (1 s)
  show ?case
  proof (cases "quiescent s")
    case True
    with 1 show ?thesis by (auto simp: run_quiescent)
  next
    case False
    have "(sched s, s) \<in> measures [weight, rank]"
      using 1(2) False by (rule sched_decreases)
    moreover have "0 < batchSize (sched s)"
      using 1(2) by (simp add: sched_parameters)
    moreover have "I (sched s)"
      using 1(3) False by (rule assms(3))
    ultimately have "\<exists>s'. run (sched s) = Some s' \<and> quiescent s' \<and> I s'"
      by (rule 1(1))
    then show ?thesis
      using run_sched [OF False] by simp
  qed
qed

lemma run_drains:
  assumes "consistent s" "0 < batchSize s"
  shows "\<exists>s'. run s = Some s' \<and> queue s' = [] \<and> \<not> processing s' \<and> passes s' = [] \<and>
              timers s' = 0 \<and>
              mset (calls (events s')) = total_calls s \<and>
              mset (failures (events s')) = total_failures s"
proof -
  let ?I = "\<lambda>t. consistent t \<and> total_calls t = total_calls s \<and> total_failures t = total_failures s"
  have "\<exists>s'. run s = Some s' \<and> quiescent s' \<and> ?I s'"
  proof (rule run_returns [where I = ?I])
    show "0 < batchSize s" by (rule assms(2))
    show "?I s" using assms(1) by simp
    show "?I (sched t)" if "?I t" "\<not> quiescent t" for t
      using that sched_is_step [OF that(2)]
      by (auto simp: total_calls_sched total_failures_sched intro: consistent_step)
  qed
  then obtain s' where s': "run s = Some s'" "quiescent s'" "consistent s'"
      "total_calls s' = total_calls s" "total_failures s' = total_failures s"
    by blast
  have p: "passes s' = []" "timers s' = 0"
    using s'(2) by (simp_all add: quiescent_def)
  then have np: "\<not> processing s'" and q: "queue s' = []"
    using s'(3) by (auto simp: consistent_def single_pass_def)
  have "total_calls s' = mset (calls (events s'))" "total_failures s' = mset (failures (events s'))"
    using p q by (simp_all add: total_calls_def total_failures_def in_flight_def)
  with s' p np q show ?thesis by auto
qed

lemma total_calls_processQueue: "total_calls (processQueue s) = total_calls s"
proof (cases "processing s \<or> queue s = []")
  case True
  then show ?thesis by (auto simp: processQueue_def)
next
  case False
  let ?s = "s\<lparr>processing := True\<rparr>"
  let ?ps = "passes s @ [InFlight (take (batchSize s) (queue s))]"
  have "processQueue s = after_dispatch ?s ?ps"
    using False
    by (simp add: processQueue_def suspend_new_def loop_head_def dispatch_def after_dispatch_def
          Let_def)
  moreover have "total_calls (after_dispatch ?s ?ps) = total_calls ?s"
    by (intro total_calls_after_dispatch) (simp add: in_flight_def)
  ultimately show ?thesis by (simp add: total_calls_def in_flight_def)
qed

lemma total_failures_processQueue: "total_failures (processQueue s) = total_failures s"
proof (cases "processing s \<or> queue s = []")
  case True
  then show ?thesis by (auto simp: processQueue_def)
next
  case False
  let ?s = "s\<lparr>processing := True\<rparr>"
  let ?ps = "passes s @ [InFlight (take (batchSize s) (queue s))]"
  have "processQueue s = after_dispatch ?s ?ps"
    using False
    by (simp add: processQueue_def suspend_new_def loop_head_def dispatch_def after_dispatch_def
          Let_def)
  moreover have "total_failures (after_dispatch ?s ?ps) = total_failures ?s"
    by (intro total_failures_after_dispatch) (simp add: in_flight_def)
  ultimately show ?thesis by (simp add: total_failures_def in_flight_def)
qed

lemma total_calls_enqueue:
  "total_calls (enqueue d f now s) =
     total_calls s + replicate_mset (tries (maxRetries s) (f d) 0) d"
proof -
  let ?s = "s\<lparr>queue := queue s @ [new_item (d, f, now)]\<rparr>"
  have "total_calls (enqueue d f now s) = total_calls ?s"
    by (simp add: enqueue_def new_item_def Let_def total_calls_processQueue)
  also have "\<dots> = total_calls s + replicate_mset (tries (maxRetries s) (f d) 0) d"
    by (simp add: total_calls_def in_flight_def attempts_def new_item_def)
  finally show ?thesis .
qed

lemma total_failures_enqueue:
  "total_failures (enqueue d f now s) =
     total_failures s + (if gives_up (maxRetries s) (f d) 0 then {#d#} else {#})"
proof -
  let ?s = "s\<lparr>queue := queue s @ [new_item (d, f, now)]\<rparr>"
  have "total_failures (enqueue d f now s) = total_failures ?s"
    by (simp add: enqueue_def new_item_def Let_def total_failures_processQueue)
  also have "\<dots> = total_failures s + (if gives_up (maxRetries s) (f d) 0 then {#d#} else {#})"
    by (simp add: total_failures_def in_flight_def doomed_def new_item_def)
  finally show ?thesis .
qed

lemma enqueue_all_Cons:
  "enqueue_all ((d, f, now) # items) s = enqueue_all items (enqueue d f now s)"
  by (simp add: enqueue_all_def)

lemma enqueue_all_consistent:
  "consistent s \<Longrightarrow> consistent (enqueue_all items s) \<and>
     batchSize (enqueue_all items s) = batchSize s \<and> maxRetries (enqueue_all items s) = maxRetries s"
proof (induction items arbitrary: s)
  case Nil
  then show ?case by (simp add: enqueue_all_def)
next
  case (Cons x items)
  obtain d f now where x: "x = (d, f, now)" by (cases x) auto
  have "step s (enqueue d f now s)" by (rule step_enqueue)
  then have "consistent (enqueue d f now s)" "batchSize (enqueue d f now s) = batchSize s"
      "maxRetries (enqueue d f now s) = maxRetries s"
    using Cons.prems consistent_step step_parameters by blast+
  then show ?case
    using Cons.IH [of "enqueue d f now s"] by (simp add: x enqueue_all_Cons)
qed

lemma total_enqueue_all_ok:
  assumes "\<forall>x\<in>set items. always_ok (new_item x)" "consistent s"
  shows "total_calls (enqueue_all items s) = total_calls s + mset (map fst items) \<and>
         total_failures (enqueue_all items s) = total_failures s"
  using assms
proof (induction items arbitrary: s)
  case Nil
  then show ?case by (simp add: enqueue_all_def)
next
  case (Cons x items)
  obtain d f now where x: "x = (d, f, now)" by (cases x) auto
  have ok: "\<forall>n. f d n"
    using Cons.prems(1) by (simp add: x always_ok_def new_item_def)
  have c: "consistent (enqueue d f now s)"
    by (rule consistent_step [OF step_enqueue Cons.prems(2)])
  have "total_calls (enqueue d f now s) = total_calls s + {#d#}"
    using ok by (simp add: total_calls_enqueue tries_always_ok)
  moreover have "total_failures (enqueue d f now s) = total_failures s"
    using ok by (simp add: total_failures_enqueue gives_up_always_ok)
  ultimately show ?case
    using Cons.IH [OF _ c] Cons.prems(1) by (simp add: x enqueue_all_Cons)
qed

lemma pending_processQueue: "pending (processQueue s) = pending s"
  by (auto simp: processQueue_def suspend_new_def loop_head_def dispatch_def pending_def Let_def)

lemma pending_enqueue: "pending (enqueue d f now s) = Suc (pending s)"
proof -
  let ?s = "s\<lparr>queue := queue s @ [new_item (d, f, now)]\<rparr>"
  have "pending (enqueue d f now s) = pending ?s"
    by (simp add: enqueue_def new_item_def Let_def pending_processQueue)
  then show ?thesis by (simp add: pending_def)
qed

lemma dispatch_batch_size: "snd (dispatch t) = InFlight b \<Longrightarrow> length b \<le> batchSize t"
  by (auto simp: dispatch_def Let_def)

lemma continues_cases_consistent:
  assumes "continues s s'" "consistent s"
  obtains (settle) b j where "passes s = [InFlight b]" "j < length b" "s' = settle 0 j s"
  | (other) "\<not> quiescent s" "s' = sched s"
  using assms(1)
proof cases
  case (settles i items j)
  have "length (passes s) \<le> 1"
    using assms(2) by (simp add: consistent_def single_pass_def)
  with settles have "i = 0" "passes s = [InFlight items]"
    by (cases "passes s"; simp)+
  with settles show ?thesis by (intro settle) simp_all
next
  case (joins i)
  have "length (passes s) \<le> 1"
    using assms(2) by (simp add: consistent_def single_pass_def)
  with joins have "i = 0" "passes s = [InFlight []]"
    by (cases "passes s"; simp)+
  with joins show ?thesis by (intro other) (simp_all add: quiescent_def sched_def)
next
  case (wakes i)
  have "length (passes s) \<le> 1"
    using assms(2) by (simp add: consistent_def single_pass_def)
  with wakes have "i = 0" "passes s = [Sleeping]"
    by (cases "passes s"; simp)+
  with wakes show ?thesis by (intro other) (simp_all add: quiescent_def sched_def)
next
  case timer_fires
  with assms(2) show ?thesis by (simp add: consistent_def)
qed

text \<open>
  Settling the \<open>j\<close>-th promise of the batch is the scheduler's step on the batch with that
  item moved to the front.
\<close>

lemma settle_as_sched:
  assumes "passes s = [InFlight b]" "j < length b"
  shows "settle 0 j s = sched (moved_to_front j s)"
  using assms
  by (simp add: moved_to_front_def sched_def settle_def settle_item_def Let_def)

lemma mset_moved:
  assumes "j < length b"
  shows "mset (b ! j # take j b @ drop (Suc j) b) = mset b"
proof -
  have "b = take j b @ b ! j # drop (Suc j) b"
    using assms by (rule id_take_nth_drop)
  then have "mset b = mset (take j b @ b ! j # drop (Suc j) b)"
    by simp
  then show ?thesis by simp
qed

lemma moved_to_front_same:
  assumes "passes s = [InFlight b]" "j < length b"
  shows "total_calls (moved_to_front j s) = total_calls s"
    and "total_failures (moved_to_front j s) = total_failures s"
    and "weight (moved_to_front j s) = weight s"
    and "rank (moved_to_front j s) = rank s"
    and "pending (moved_to_front j s) = pending s"
    and "batchSize (moved_to_front j s) = batchSize s"
    and "\<not> quiescent (moved_to_front j s)"
proof -
  let ?b = "b ! j # take j b @ drop (Suc j) b"
  have m: "mset ?b = mset b" using assms(2) by (rule mset_moved)
  have i: "in_flight (moved_to_front j s) = ?b" "in_flight s = b"
    using assms by (simp_all add: moved_to_front_def in_flight_def)
  have f: "queue (moved_to_front j s) = queue s" "events (moved_to_front j s) = events s"
    "maxRetries (moved_to_front j s) = maxRetries s" "timers (moved_to_front j s) = timers s"
    "passes (moved_to_front j s) = [InFlight ?b]"
    using assms by (simp_all add: moved_to_front_def)
  have sm: "sum_list (map g ?b) = sum_list (map g b)" for g :: "'a queueItem \<Rightarrow> 'a multiset"
    using m by (rule sum_list_mset_cong)
  have sn: "sum_list (map h ?b) = sum_list (map h b)" for h :: "'a queueItem \<Rightarrow> nat"
    using m by (rule sum_list_mset_cong)
  show "total_calls (moved_to_front j s) = total_calls s"
    unfolding total_calls_def i f by (simp only: sm)
  have "mset (queue s @ ?b) = mset (queue s @ b)"
    using m by simp
  then have "mset (map data (filter (doomed (maxRetries s)) (queue s @ ?b)))
           = mset (map data (filter (doomed (maxRetries s)) (queue s @ b)))"
    by (metis mset_filter mset_map)
  then show "total_failures (moved_to_front j s) = total_failures s"
    unfolding total_failures_def i f by simp
  show "weight (moved_to_front j s) = weight s"
    unfolding weight_def i f by (simp only: sn)
  show "rank (moved_to_front j s) = rank s"
    using assms by (simp add: rank_def f)
  show "pending (moved_to_front j s) = pending s"
    using assms by (simp add: pending_def f)
  show "batchSize (moved_to_front j s) = batchSize s"
    using assms by (simp add: moved_to_front_def)
  show "\<not> quiescent (moved_to_front j s)"
    by (simp add: quiescent_def f)
qed

lemma continues_invariants:
  assumes "continues s s'" "consistent s" "0 < batchSize s"
  shows "total_calls s' = total_calls s \<and> total_failures s' = total_failures s \<and>
         (s', s) \<in> measures [weight, rank] \<and> pending s' \<le> pending s \<and>
         consistent s' \<and> batchSize s' = batchSize s \<and> maxRetries s' = maxRetries s"
proof -
  have c: "consistent s'"
    by (rule consistent_step [OF step_continues [OF assms(1)] assms(2)])
  have p: "batchSize s' = batchSize s \<and> maxRetries s' = maxRetries s"
    using assms(1) by (rule continues_parameters)
  have "total_calls s' = total_calls s \<and> total_failures s' = total_failures s \<and>
         (s', s) \<in> measures [weight, rank] \<and> pending s' \<le> pending s"
    using assms(1,2)
  proof (cases rule: continues_cases_consistent)
    case (settle b j)
    let ?t = "moved_to_front j s"
    note same = moved_to_front_same [OF settle(1,2)]
    have s': "s' = sched ?t"
      using settle by (simp add: settle_as_sched)
    have "(sched ?t, ?t) \<in> measures [weight, rank]"
      using same(6,7) assms(3) by (intro sched_decreases) simp_all
    then have "(s', s) \<in> measures [weight, rank]"
      using same(3,4) by (simp add: s')
    moreover have "pending s' \<le> pending s"
      using pending_sched [of ?t] same(5) by (simp add: s')
    ultimately show ?thesis
      using same(1,2) by (simp add: s' total_calls_sched total_failures_sched)
  next
    case other
    have "(sched s, s) \<in> measures [weight, rank]"
      using assms(3) other(1) by (rule sched_decreases)
    with other show ?thesis
      by (simp add: total_calls_sched total_failures_sched pending_sched)
  qed
  with c p show ?thesis by simp
qed

lemma continues_star_invariants:
  assumes "continues\<^sup>*\<^sup>* s t" "consistent s" "0 < batchSize s"
  shows "total_calls t = total_calls s \<and> total_failures t = total_failures s \<and>
         pending t \<le> pending s \<and> consistent t \<and> batchSize t = batchSize s \<and>
         maxRetries t = maxRetries s"
  using assms
proof (induction rule: rtranclp_induct)
  case base
  then show ?case by simp
next
  case (step t u)
  then have "consistent t" "0 < batchSize t" by simp_all
  from continues_invariants [OF step(2) this] step show ?case by simp
qed

lemma at_rest_in_any_order:
  assumes "continues\<^sup>*\<^sup>* s t" "quiescent t" "consistent s" "0 < batchSize s"
  shows "queue t = [] \<and> \<not> processing t \<and>
         mset (calls (events t)) = total_calls s \<and> mset (failures (events t)) = total_failures s"
proof -
  have i: "total_calls t = total_calls s" "total_failures t = total_failures s" "consistent t"
    using continues_star_invariants [OF assms(1,3,4)] by simp_all
  have p: "passes t = []" "timers t = 0"
    using assms(2) by (simp_all add: quiescent_def)
  then have np: "\<not> processing t" and q: "queue t = []"
    using i(3) by (auto simp: consistent_def single_pass_def)
  have "total_calls t = mset (calls (events t))" "total_failures t = mset (failures (events t))"
    using p q by (simp_all add: total_calls_def total_failures_def in_flight_def)
  with i np q show ?thesis by simp
qed

lemma no_endless_run: "wf {(t', t). consistent t \<and> 0 < batchSize t \<and> continues t t'}"
proof (rule wf_subset [OF wf_measures [of "[weight, rank]"]], rule subsetI)
  fix x :: "'a movieQueue \<times> 'a movieQueue"
  assume "x \<in> {(t', t). consistent t \<and> 0 < batchSize t \<and> continues t t'}"
  then obtain t' t where x: "x = (t', t)" "consistent t" "0 < batchSize t" "continues t t'"
    by auto
  from continues_invariants [OF x(4,2,3)] show "x \<in> measures [weight, rank]"
    unfolding x(1) by (rule conjunct1 [OF conjunct2 [OF conjunct2]])
qed

lemma run_in_some_order:
  assumes "0 < batchSize s"
  shows "\<exists>s'. run s = Some s' \<and> quiescent s' \<and> continues\<^sup>*\<^sup>* s s'"
proof (rule run_returns [where I = "\<lambda>t. continues\<^sup>*\<^sup>* s t"])
  show "0 < batchSize s" by (rule assms)
  show "continues\<^sup>*\<^sup>* s s" by simp
  show "continues\<^sup>*\<^sup>* s (sched t)" if "continues\<^sup>*\<^sup>* s t" "\<not> quiescent t" for t
    using that(1) sched_continues [OF that(2)] by (rule rtranclp.rtrancl_into_rtrancl)
qed

lemma no_endless_run_from:
  assumes "consistent s" "0 < batchSize s"
  shows "wf {(t', t). continues\<^sup>*\<^sup>* s t \<and> continues t t'}"
proof (rule wf_subset [OF no_endless_run], rule subsetI)
  fix x :: "'a movieQueue \<times> 'a movieQueue"
  assume "x \<in> {(t', t). continues\<^sup>*\<^sup>* s t \<and> continues t t'}"
  then obtain t' t where x: "x = (t', t)" "continues\<^sup>*\<^sup>* s t" "continues t t'"
    by auto
  have "consistent t \<and> 0 < batchSize t"
    using continues_star_invariants [OF x(2) assms] assms(2) by simp
  with x show "x \<in> {(t', t). consistent t \<and> 0 < batchSize t \<and> continues t t'}"
    by simp
qed

text \<open>
  C7. For every number of items whose insert operations always succeed, enqueued one
  after the other into the queue in any state that its steps can bring about: the
  processing that follows comes to rest in whatever order the promises settle, and the
  scheduler's run does; at rest the queue is empty and the flag cleared, and compared
  with the run without the new items the insert operation of each of them has been
  called exactly once more and nothing more has been given up. On a queue at rest the
  trace is: the call of the first item, and then for each batch of at most \<open>batchSize\<close>
  of the others (10 by default) a pause and the calls of its items, in the order of
  enqueueing. No batch that is dispatched has more than \<open>batchSize\<close> items. The
  hypothesis \<open>consistent\<close> holds of every reachable state and of every queue at rest.
\<close>

theorem all_items_processed_once:
  assumes "consistent s" and "0 < batchSize s"
    and "\<forall>x\<in>set items. always_ok (new_item x)"
  shows "(\<exists>s0. run s = Some s0 \<and>
            (\<exists>s1. run (enqueue_all items s) = Some s1 \<and> quiescent s1 \<and>
                  continues\<^sup>*\<^sup>* (enqueue_all items s) s1) \<and>
            (\<forall>t. continues\<^sup>*\<^sup>* (enqueue_all items s) t \<and> quiescent t \<longrightarrow>
                 queue t = [] \<and> \<not> processing t \<and>
                 mset (calls (events t)) = mset (calls (events s0)) + mset (map fst items) \<and>
                 mset (failures (events t)) = mset (failures (events s0)))) \<and>
         wf {(t', t). continues\<^sup>*\<^sup>* (enqueue_all items s) t \<and> continues t t'} \<and>
         (idle s \<longrightarrow>
            (\<exists>s1. run (enqueue_all items s) = Some s1 \<and>
               events s1 = events s @
                 (case items of
                    [] \<Rightarrow> []
                  | x # rest \<Rightarrow>
                      Called (fst x) #
                      concat (map (\<lambda>c. Delay # map Called c) (chunks (batchSize s) (map fst rest)))) \<and>
               calls (events s1) = calls (events s) @ map fst items)) \<and>
         (\<forall>c\<in>set (chunks (batchSize s) (map fst (tl items))). length c \<le> batchSize s) \<and>
         (\<forall>t b. snd (dispatch t) = InFlight b \<longrightarrow> length b \<le> batchSize t) \<and>
         batchSize (new_queue :: 'a movieQueue) = 10"
proof -
  let ?s = "enqueue_all items s"
  obtain s0 where s0: "run s = Some s0" "mset (calls (events s0)) = total_calls s"
      "mset (failures (events s0)) = total_failures s"
    using run_drains [OF assms(1,2)] by blast
  have c: "consistent ?s" "0 < batchSize ?s"
    using enqueue_all_consistent [OF assms(1), of items] assms(2) by simp_all
  have tot: "total_calls ?s = total_calls s + mset (map fst items)"
      "total_failures ?s = total_failures s"
    using total_enqueue_all_ok [OF assms(3,1)] by simp_all
  have r: "\<exists>s1. run ?s = Some s1 \<and> quiescent s1 \<and> continues\<^sup>*\<^sup>* ?s s1"
    using c(2) by (rule run_in_some_order)
  have a: "queue t = [] \<and> \<not> processing t \<and>
           mset (calls (events t)) = mset (calls (events s0)) + mset (map fst items) \<and>
           mset (failures (events t)) = mset (failures (events s0))"
    if "continues\<^sup>*\<^sup>* ?s t" "quiescent t" for t
    using at_rest_in_any_order [OF that c] s0 tot by simp
  have g: "\<exists>s0. run s = Some s0 \<and>
            (\<exists>s1. run ?s = Some s1 \<and> quiescent s1 \<and> continues\<^sup>*\<^sup>* ?s s1) \<and>
            (\<forall>t. continues\<^sup>*\<^sup>* ?s t \<and> quiescent t \<longrightarrow>
                 queue t = [] \<and> \<not> processing t \<and>
                 mset (calls (events t)) = mset (calls (events s0)) + mset (map fst items) \<and>
                 mset (failures (events t)) = mset (failures (events s0)))"
    using s0(1) r a by (intro exI [of _ s0]) blast
  have w: "wf {(t', t). continues\<^sup>*\<^sup>* ?s t \<and> continues t t'}"
    using c by (rule no_endless_run_from)
  have i: "idle s \<longrightarrow>
            (\<exists>s1. run ?s = Some s1 \<and>
               events s1 = events s @
                 (case items of
                    [] \<Rightarrow> []
                  | x # rest \<Rightarrow>
                      Called (fst x) #
                      concat (map (\<lambda>c. Delay # map Called c) (chunks (batchSize s) (map fst rest)))) \<and>
               calls (events s1) = calls (events s) @ map fst items)"
    using idle_run_all_ok [of s items] assms(2,3) by blast
  have b: "\<forall>c\<in>set (chunks (batchSize s) (map fst (tl items))). length c \<le> batchSize s"
    by (auto dest: chunks_length)
  have d: "\<forall>t b. snd (dispatch t) = InFlight b \<longrightarrow> length b \<le> batchSize t" for dummy :: 'a
    by (auto dest: dispatch_batch_size)
  have n: "batchSize (new_queue :: 'a movieQueue) = 10"
    by (simp add: new_queue_def)
  show ?thesis
    by (intro conjI g w i b d n)
qed

text \<open>
  C3. An item whose insert operation always fails, enqueued into the queue in any state
  that its steps can bring about, is called once and then retried exactly \<open>maxRetries\<close>
  times (3 by default), and is given up once: the processing that follows comes to rest
  in whatever order the promises settle, with the queue empty, and compared with the run
  without the item there are \<open>1 + maxRetries\<close> more calls for its payload and one more
  terminal failure. Meanwhile the queue never holds more items than were waiting or in
  flight before, plus this one. On a queue at rest the trace is the call, then
  \<open>maxRetries\<close> times a pause and a call, then the terminal failure. Each failed attempt
  below the limit appends the item to the tail of the queue with its counter incremented,
  the one at the limit logs the failure and queues nothing.
\<close>

theorem failing_item_retried_then_dropped:
  assumes "consistent s" and "0 < batchSize s" and "\<forall>n. \<not> f d n"
  shows "(\<exists>s0. run s = Some s0 \<and>
            (\<exists>s1. run (enqueue d f now s) = Some s1 \<and> quiescent s1 \<and>
                  continues\<^sup>*\<^sup>* (enqueue d f now s) s1) \<and>
            (\<forall>t. continues\<^sup>*\<^sup>* (enqueue d f now s) t \<and> quiescent t \<longrightarrow>
                 queue t = [] \<and> \<not> processing t \<and>
                 mset (calls (events t)) = mset (calls (events s0)) + replicate_mset (1 + maxRetries s) d \<and>
                 mset (failures (events t)) = mset (failures (events s0)) + {#d#})) \<and>
         wf {(t', t). continues\<^sup>*\<^sup>* (enqueue d f now s) t \<and> continues t t'} \<and>
         (\<forall>t. continues\<^sup>*\<^sup>* (enqueue d f now s) t \<longrightarrow> length (queue t) \<le> pending s + 1) \<and>
         (idle s \<longrightarrow>
            (\<exists>s1. run (enqueue d f now s) = Some s1 \<and>
               events s1 = events s @ Called d #
                  concat (replicate (maxRetries s) [Delay, Called d]) @ [TerminalFailure d])) \<and>
         (\<forall>q i j b. i < length (passes q) \<and> passes q ! i = InFlight b \<and> j < length b \<and>
                    data (b ! j) = d \<and> insertFunction (b ! j) = f \<longrightarrow>
            (retries (b ! j) < maxRetries q \<longrightarrow>
               queue (settle i j q) = queue q @ [(b ! j)\<lparr>retries := retries (b ! j) + 1\<rparr>] \<and>
               events (settle i j q) = events q) \<and>
            (\<not> retries (b ! j) < maxRetries q \<longrightarrow>
               queue (settle i j q) = queue q \<and>
               events (settle i j q) = events q @ [TerminalFailure d])) \<and>
         maxRetries (new_queue :: 'a movieQueue) = 3"
proof -
  let ?s = "enqueue d f now s"
  obtain s0 where s0: "run s = Some s0" "mset (calls (events s0)) = total_calls s"
      "mset (failures (events s0)) = total_failures s"
    using run_drains [OF assms(1,2)] by blast
  have c: "consistent ?s" "0 < batchSize ?s"
    using consistent_step [OF step_enqueue assms(1)] step_parameters [OF step_enqueue [of s d f now]]
      assms(2) by simp_all
  have tot: "total_calls ?s = total_calls s + replicate_mset (1 + maxRetries s) d"
      "total_failures ?s = total_failures s + {#d#}"
    using assms(3)
    by (simp_all add: total_calls_enqueue total_failures_enqueue tries_always_fails
          gives_up_always_fails)
  have r: "\<exists>s1. run ?s = Some s1 \<and> quiescent s1 \<and> continues\<^sup>*\<^sup>* ?s s1"
    using c(2) by (rule run_in_some_order)
  have a: "queue t = [] \<and> \<not> processing t \<and>
           mset (calls (events t)) = mset (calls (events s0)) + replicate_mset (1 + maxRetries s) d \<and>
           mset (failures (events t)) = mset (failures (events s0)) + {#d#}"
    if "continues\<^sup>*\<^sup>* ?s t" "quiescent t" for t
    using at_rest_in_any_order [OF that c] s0 tot by simp
  have g: "\<exists>s0. run s = Some s0 \<and>
            (\<exists>s1. run ?s = Some s1 \<and> quiescent s1 \<and> continues\<^sup>*\<^sup>* ?s s1) \<and>
            (\<forall>t. continues\<^sup>*\<^sup>* ?s t \<and> quiescent t \<longrightarrow>
                 queue t = [] \<and> \<not> processing t \<and>
                 mset (calls (events t)) = mset (calls (events s0)) + replicate_mset (1 + maxRetries s) d \<and>
                 mset (failures (events t)) = mset (failures (events s0)) + {#d#})"
    using s0(1) r a by (intro exI [of _ s0]) blast
  have w: "wf {(t', t). continues\<^sup>*\<^sup>* ?s t \<and> continues t t'}"
    using c by (rule no_endless_run_from)
  have b: "\<forall>t. continues\<^sup>*\<^sup>* ?s t \<longrightarrow> length (queue t) \<le> pending s + 1"
  proof (intro allI impI)
    fix t assume "continues\<^sup>*\<^sup>* ?s t"
    from continues_star_invariants [OF this c] have "pending t \<le> pending ?s" by simp
    then show "length (queue t) \<le> pending s + 1"
      by (simp add: pending_enqueue) (simp add: pending_def)
  qed
  have i: "idle s \<longrightarrow>
            (\<exists>s1. run ?s = Some s1 \<and>
               events s1 = events s @ Called d #
                  concat (replicate (maxRetries s) [Delay, Called d]) @ [TerminalFailure d])"
    using idle_run_failing [of s f d now] assms(2,3) by blast
  have t: "\<forall>q i j b. i < length (passes q) \<and> passes q ! i = InFlight b \<and> j < length b \<and>
                    data (b ! j) = d \<and> insertFunction (b ! j) = f \<longrightarrow>
            (retries (b ! j) < maxRetries q \<longrightarrow>
               queue (settle i j q) = queue q @ [(b ! j)\<lparr>retries := retries (b ! j) + 1\<rparr>] \<and>
               events (settle i j q) = events q) \<and>
            (\<not> retries (b ! j) < maxRetries q \<longrightarrow>
               queue (settle i j q) = queue q \<and>
               events (settle i j q) = events q @ [TerminalFailure d])"
    using assms(3) by (simp add: settle_def settle_item_def)
  have m: "maxRetries (new_queue :: 'a movieQueue) = 3"
    by (simp add: new_queue_def)
  show ?thesis
    by (intro conjI g w b i t m)
qed

theorem failing_item_retried_then_dropped_witness:
  "consistent (new_queue :: string movieQueue) \<and> 0 < batchSize (new_queue :: string movieQueue) \<and>
   idle (new_queue :: string movieQueue) \<and>
   (\<exists>s'. run (enqueue ''m1'' (\<lambda>d n. False) 0 new_queue) = Some s' \<and>
       queue s' = [] \<and> \<not> processing s' \<and>
       events s' = [Called ''m1'', Delay, Called ''m1'', Delay, Called ''m1'', Delay, Called ''m1'',
                    TerminalFailure ''m1''] \<and>
       mset (calls (events s')) = {#''m1'', ''m1'', ''m1'', ''m1''#} \<and>
       mset (failures (events s')) = {#''m1''#})"
proof -
  let ?q = "new_queue :: string movieQueue"
  let ?s = "enqueue ''m1'' (\<lambda>d n. False) 0 ?q"
  have c: "consistent ?q"
    by (rule consistent_idle [OF idle_new_queue])
  have b: "0 < batchSize ?q"
    by (simp add: new_queue_def)
  have n: "events ?q = []" "maxRetries ?q = 3" "run ?q = Some ?q"
    by (simp_all add: new_queue_def run_quiescent quiescent_def)
  note th = failing_item_retried_then_dropped [of ?q "\<lambda>d n. False" "''m1''" 0, OF c b]
  from th n(3) obtain s1 where s1: "run ?s = Some s1" "quiescent s1" "continues\<^sup>*\<^sup>* ?s s1"
    and all: "\<forall>t. continues\<^sup>*\<^sup>* ?s t \<and> quiescent t \<longrightarrow>
                 queue t = [] \<and> \<not> processing t \<and>
                 mset (calls (events t)) = mset (calls (events ?q)) + replicate_mset (1 + maxRetries ?q) ''m1'' \<and>
                 mset (failures (events t)) = mset (failures (events ?q)) + {#''m1''#}"
    by auto
  from th idle_new_queue [where 'a = string] s1(1)
  have e: "events s1 = events ?q @ Called ''m1'' #
             concat (replicate (maxRetries ?q) [Delay, Called ''m1'']) @ [TerminalFailure ''m1'']"
    by auto
  from all s1 have "queue s1 = []" "\<not> processing s1"
      "mset (calls (events s1)) = mset (calls (events ?q)) + replicate_mset (1 + maxRetries ?q) ''m1''"
      "mset (failures (events s1)) = mset (failures (events ?q)) + {#''m1''#}"
    by blast+
  with s1(1) e c b idle_new_queue [where 'a = string] show ?thesis
    by (simp add: n numeral_3_eq_3 calls_def failures_def)
qed

theorem all_items_processed_once_witness:
  "consistent (new_queue :: string movieQueue) \<and> 0 < batchSize (new_queue :: string movieQueue) \<and>
   always_ok (new_item (''m1'', \<lambda>d n. True, 0)) \<and> always_ok (new_item (''m2'', \<lambda>d n. True, 0)) \<and>
   idle (new_queue :: string movieQueue) \<and>
   (\<exists>s'. run (enqueue_all [(''m1'', \<lambda>d n. True, 0), (''m2'', \<lambda>d n. True, 0)] new_queue) = Some s' \<and>
       queue s' = [] \<and> \<not> processing s' \<and>
       events s' = [Called ''m1'', Delay, Called ''m2''] \<and> calls (events s') = [''m1'', ''m2''])"
proof -
  let ?q = "new_queue :: string movieQueue"
  let ?items = "[(''m1'', \<lambda>d n. True, 0 :: int), (''m2'', \<lambda>d n. True, 0)]"
  let ?s = "enqueue_all ?items ?q"
  have c: "consistent ?q"
    by (rule consistent_idle [OF idle_new_queue])
  have b: "0 < batchSize ?q"
    by (simp add: new_queue_def)
  have n: "events ?q = []" "batchSize ?q = 10" "run ?q = Some ?q"
    by (simp_all add: new_queue_def run_quiescent quiescent_def)
  have o: "\<forall>x\<in>set ?items. always_ok (new_item x)"
    by (simp add: always_ok_def new_item_def)
  note th = all_items_processed_once [OF c b o]
  from th n(3) obtain s1 where s1: "run ?s = Some s1" "quiescent s1" "continues\<^sup>*\<^sup>* ?s s1"
    and all: "\<forall>t. continues\<^sup>*\<^sup>* ?s t \<and> quiescent t \<longrightarrow> queue t = [] \<and> \<not> processing t"
    by auto
  from th idle_new_queue [where 'a = string] s1(1)
  have e: "events s1 = events ?q @
             (case ?items of
                [] \<Rightarrow> []
              | x # rest \<Rightarrow>
                  Called (fst x) #
                  concat (map (\<lambda>c. Delay # map Called c) (chunks (batchSize ?q) (map fst rest))))"
    by auto
  from all s1 have "queue s1 = []" "\<not> processing s1"
    by blast+
  with s1(1) e c b o idle_new_queue [where 'a = string] show ?thesis
    by (simp add: n chunks.simps calls_def)
qed

text \<open>
  C8. In every state that the steps of the queue can reach from a new queue, at most one
  invocation of \<open>processQueue\<close> is under way, and the flag \<open>processing\<close> is set exactly
  while one is; a call of \<open>processQueue\<close> with the flag set changes nothing, and a call
  that passes the guard has set the flag when it has dispatched its first batch.
\<close>

theorem at_most_one_processing_pass:
  assumes "reachable s"
  shows "length (passes s) \<le> 1 \<and> (processing s \<longleftrightarrow> passes s \<noteq> []) \<and>
         (processing s \<longrightarrow> processQueue s = s) \<and>
         (\<not> processing s \<and> queue s \<noteq> [] \<longrightarrow>
            processing (processQueue s) \<and> length (passes (processQueue s)) = 1)"
proof -
  have sp: "single_pass s"
    using assms by (rule single_pass_reachable)
  have "single_pass (processQueue s)"
    using sp by (rule single_pass_processQueue)
  moreover have "processing (processQueue s)" if "\<not> processing s" "queue s \<noteq> []"
    using that
    by (simp add: processQueue_def suspend_new_def loop_head_def dispatch_def Let_def)
  ultimately have "processing (processQueue s) \<and> length (passes (processQueue s)) = 1"
    if "\<not> processing s" "queue s \<noteq> []"
    using that by (auto simp: single_pass_def le_Suc_eq)
  moreover have "processQueue s = s" if "processing s"
    using that by (simp add: processQueue_def)
  ultimately show ?thesis
    using sp by (auto simp: single_pass_def)
qed

theorem at_most_one_processing_pass_witness:
  "reachable (enqueue ''m2'' (\<lambda>d n. True) 0 (enqueue ''m1'' (\<lambda>d n. True) 0 new_queue)) \<and>
   length (passes (enqueue ''m2'' (\<lambda>d n. True) 0 (enqueue ''m1'' (\<lambda>d n. True) 0 new_queue))) \<le> 1 \<and>
   processing (enqueue ''m2'' (\<lambda>d n. True) 0 (enqueue ''m1'' (\<lambda>d n. True) 0 new_queue)) \<and>
   processQueue (enqueue ''m2'' (\<lambda>d n. True) 0 (enqueue ''m1'' (\<lambda>d n. True) 0 new_queue))
     = enqueue ''m2'' (\<lambda>d n. True) 0 (enqueue ''m1'' (\<lambda>d n. True) 0 new_queue) \<and>
   length (queue (enqueue ''m2'' (\<lambda>d n. True) 0 (enqueue ''m1'' (\<lambda>d n. True) 0 new_queue))) = 1"
proof -
  let ?s = "enqueue ''m2'' (\<lambda>d n. True) 0 (enqueue ''m1'' (\<lambda>d n. True) 0 new_queue)"
  have r: "reachable ?s"
    by (intro reachable_step [OF _ step_enqueue] reachable_new)
  have p: "processing ?s" and q: "length (queue ?s) = 1"
    by (simp_all add: enqueue_def processQueue_def suspend_new_def loop_head_def dispatch_def
          new_queue_def Let_def)
  show ?thesis
    using r p q at_most_one_processing_pass [OF r] by simp
qed

end
